theory Spec2Isabelle
  imports Complex_Main "HOL-Library.Monad_Syntax" "HOL-Library.Word"
begin

unbundle bit_operations_syntax

section \<open>Conventions of the embedding\<close>

text \<open>
  The model follows \<^verbatim>\<open>fix_bio_kinetics_diffusion.cpp\<close>, \<^verbatim>\<open>fix_bio_kinetics.cpp\<close>
  and \<^verbatim>\<open>KOKKOS/fix_monod_cyano_kokkos.cpp\<close>.

  \<^item> A C++ \<^verbatim>\<open>double\<close> is a \<^typ>\<open>real\<close>: arithmetic is exact, there is no rounding,
    no infinity and no NaN.
  \<^item> A C++ \<^verbatim>\<open>int\<close> used as an index or a counter is an \<^typ>\<open>int\<close>; the grids are far
    below the 32-bit range, so no wrap-around is written out.
  \<^item> A C array is a list. Reading or writing outside the allocated range is undefined
    behaviour in C++; in the model every access is checked and the operation returns
    \<^term>\<open>None\<close>.
  \<^item> In the diffusion stepper a division by zero gives an infinity or a NaN, which no
    \<^typ>\<open>real\<close> stands for (a NaN passes the clamp \<^verbatim>\<open>if (nuCell <= 0)\<close>): the
    functions that divide by a cell size or by the reactor volume and cross-section
    return \<^term>\<open>None\<close> when the divisor is zero.
\<close>

definition rd :: "'a list \<Rightarrow> int \<Rightarrow> 'a option" where
  "rd xs i = (if 0 \<le> i \<and> i < int (length xs) then Some (xs ! nat i) else None)"

definition wr :: "'a list \<Rightarrow> int \<Rightarrow> 'a \<Rightarrow> 'a list option" where
  "wr xs i v = (if 0 \<le> i \<and> i < int (length xs) then Some (xs[nat i := v]) else None)"

definition rd2 :: "'a list list \<Rightarrow> int \<Rightarrow> int \<Rightarrow> 'a option" where
  "rd2 xss i j = (case rd xss i of None \<Rightarrow> None | Some xs \<Rightarrow> rd xs j)"

definition wr2 :: "'a list list \<Rightarrow> int \<Rightarrow> int \<Rightarrow> 'a \<Rightarrow> 'a list list option" where
  "wr2 xss i j v =
     (case rd xss i of
        None \<Rightarrow> None
      | Some xs \<Rightarrow> (case wr xs j v of None \<Rightarrow> None | Some xs' \<Rightarrow> wr xss i xs'))"

text \<open>A counted loop \<^verbatim>\<open>for (k = ...; ...; k++) body\<close> whose body may hit undefined
  behaviour: the body is run on each index in turn and the loop stops at the first
  \<^term>\<open>None\<close>.\<close>

fun for_loop :: "nat list \<Rightarrow> (nat \<Rightarrow> 'a \<Rightarrow> 'a option) \<Rightarrow> 'a \<Rightarrow> 'a option" where
  "for_loop [] body a = Some a"
| "for_loop (k # ks) body a =
     (case body k a of None \<Rightarrow> None | Some a' \<Rightarrow> for_loop ks body a')"

text \<open>The floor \<^verbatim>\<open>1e-20\<close> used by the clamps.\<close>

definition floor_conc :: real where
  "floor_conc = 1 / 10 ^ 20"

section \<open>The diffusion stepper: data\<close>

text \<open>
  The members of \<^verbatim>\<open>FixKineticsDiffusion\<close>, and the members of \<^verbatim>\<open>FixKinetics\<close>,
  \<^verbatim>\<open>BIO\<close>, \<^verbatim>\<open>Comm\<close> and \<^verbatim>\<open>Update\<close> it reads, that \<^verbatim>\<open>diffusion()\<close> does not
  write. \<open>k_nz\<close> is \<^verbatim>\<open>kinetics->nz\<close>, \<open>dt\<close> is \<^verbatim>\<open>update->dt\<close>, \<open>nevery\<close> is the
  stepper's own \<^verbatim>\<open>nevery\<close> (inherited from \<^verbatim>\<open>Fix\<close>, whose source is not part of the
  repository sample). \<open>recvcells\<close> and \<open>nrecvcells\<close> are \<^verbatim>\<open>kinetics->recvcells\<close> and
  \<^verbatim>\<open>kinetics->recvend[comm->nprocs - 1]\<close>, \<open>sendcells\<close> and \<open>nsendcells\<close> are
  \<^verbatim>\<open>kinetics->sendcells\<close> and \<^verbatim>\<open>kinetics->sendend[comm->nprocs - 1]\<close>. The rows of \<open>xGrid\<close> and the arrays
  \<open>sublo\<close>, \<open>subhi\<close>, \<open>subn\<close> have three entries each, so they are triples
  \<open>(x, y, z)\<close>.
\<close>

record grid_cfg =
  xbcflag :: int
  ybcflag :: int
  zbcflag :: int
  unit :: int
  rflag :: int
  shearRate :: real
  tol :: real
  q :: real
  rvol :: real
  af :: real
  nx :: int
  ny :: int
  nz :: int
  k_nz :: int
  nX :: int
  nY :: int
  nnus :: nat
  iniS :: "real list list"
  diffD :: "real list"
  xlo :: real
  xhi :: real
  ylo :: real
  yhi :: real
  zlo :: real
  zhi :: real
  stepx :: real
  stepy :: real
  stepz :: real
  xGrid :: "(real \<times> real \<times> real) list"
  sublo :: "real \<times> real \<times> real"
  subhi :: "real \<times> real \<times> real"
  subn :: "int \<times> int \<times> int"
  bnz :: int
  bl :: real
  nuName :: "string list"
  nuType :: "int list"
  nprocs :: int
  dt :: real
  nevery :: int
  recvcells :: "int list"
  nrecvcells :: int
  sendcells :: "int list"
  nsendcells :: int

text \<open>
  What \<^verbatim>\<open>diffusion()\<close> and the functions it calls write: the concentration field
  \<open>nuGrid[grid][nu]\<close>, the snapshot \<open>nuPrev[nu][grid]\<close>, the ghost flags, the bulk
  concentrations \<open>nuBS[nu]\<close>, the kinetics arrays \<open>nuS[nu][ind]\<close> and \<open>nuR[nu][ind]\<close>,
  the size \<open>nXYZ\<close> and the height \<open>bzhi\<close> of the active region, the time step \<open>diffT\<close>,
  the six face values \<open>xbcm\<close> ... \<open>zbcp\<close>, which are members of the class, the sizes of the
  two halo buffers and the send buffer \<open>sendbuff\<close> (a list of \<open>send_buff_size\<close> values).
\<close>

record grid_state =
  nXYZ :: int
  bzhi :: real
  ghost :: "bool list"
  nuGrid :: "real list list"
  nuPrev :: "real list list"
  nuBS :: "real list"
  nuS :: "real list list"
  nuR :: "real list list"
  diffT :: real
  xbcm :: real
  xbcp :: real
  ybcm :: real
  ybcp :: real
  zbcm :: real
  zbcp :: real
  recv_buff_size :: int
  send_buff_size :: int
  sendbuff :: "real list"

section \<open>The flux update of a true cell\<close>

text \<open>The loop \<^verbatim>\<open>while (!ghost[hgrid]) { hgrid--; deep++; }\<close> of \<^verbatim>\<open>compute_flux\<close>.
  It walks down the flat index; leaving the array is undefined behaviour.\<close>

function shear_depth :: "bool list \<Rightarrow> int \<Rightarrow> int \<Rightarrow> int option" where
  "shear_depth gh hgrid deep =
     (if hgrid < 0 \<or> int (length gh) \<le> hgrid then None
      else if gh ! nat hgrid then Some deep
      else shear_depth gh (hgrid - 1) (deep + 1))"
  by pat_completeness auto
termination
  by (relation "measure (\<lambda>(gh, hgrid, deep). nat (hgrid + 1))") auto

declare shear_depth.simps [simp del]

text \<open>\<^verbatim>\<open>compute_flux(cellDNu, nuCell, nuPrev, rateNu, grid)\<close>: the value written to
  \<^verbatim>\<open>nuCell\<close>. Every flux divides by a cell size.\<close>

definition compute_flux ::
  "grid_cfg \<Rightarrow> grid_state \<Rightarrow> real \<Rightarrow> real list \<Rightarrow> real \<Rightarrow> int \<Rightarrow> real option" where
  "compute_flux c s cellDNu nuPrev_i rateNu grid =
   (if stepx c = 0 \<or> stepy c = 0 \<or> stepz c = 0 then None else do {
     let lhs = grid - 1;
     let rhs = grid + 1;
     let bwd = grid - nX c;
     let fwd = grid + nX c;
     let down = grid - nX c * nY c;
     let up = grid + nX c * nY c;
     p_grid \<leftarrow> rd nuPrev_i grid;
     p_rhs \<leftarrow> rd nuPrev_i rhs;
     p_lhs \<leftarrow> rd nuPrev_i lhs;
     let jRight = cellDNu * (p_rhs - p_grid) / stepx c;
     let jLeft = cellDNu * (p_grid - p_lhs) / stepx c;
     let jX = (jRight - jLeft) / stepx c;
     p_fwd \<leftarrow> rd nuPrev_i fwd;
     p_bwd \<leftarrow> rd nuPrev_i bwd;
     let jForward = cellDNu * (p_fwd - p_grid) / stepy c;
     let jBackward = cellDNu * (p_grid - p_bwd) / stepy c;
     let jY = (jForward - jBackward) / stepy c;
     p_up \<leftarrow> rd nuPrev_i up;
     p_down \<leftarrow> rd nuPrev_i down;
     let jUp = cellDNu * (p_up - p_grid) / stepz c;
     let jDown = cellDNu * (p_grid - p_down) / stepz c;
     let jZ = (jUp - jDown) / stepz c;
     shear \<leftarrow>
       (if shearRate c \<noteq> 0 then do {
          deep \<leftarrow> shear_depth (ghost s) grid 0;
          Some (shearRate c * (real_of_int deep * stepz c - stepz c / 2)
                * (p_rhs - p_lhs) / (2 * stepz c))
        } else Some 0);
     let res = (jX + jY + jZ + rateNu - shear) * diffT s;
     Some (p_grid + res)
   })"

section \<open>The boundary value of a ghost cell\<close>

text \<open>
  \<^verbatim>\<open>compute_bc\<close> writes the same two case distinctions three times each, once per axis:
  on a low face the kinds 1 (\<open>dd\<close>) and 4 (\<open>dn\<close>) are Dirichlet and 2 (\<open>nd\<close>) and 3 (\<open>nn\<close>)
  are Neumann; on a high face 1 and 2 are Dirichlet and 3 and 4 are Neumann. Kind 0
  (\<open>pp\<close>) copies the cell \<open>per\<close> across the domain when there is a single process. Any
  other kind (5, \<open>db\<close>, on the z axis) matches no case and leaves \<open>nuCell\<close> alone.
\<close>

definition bc_low_face ::
  "int \<Rightarrow> int \<Rightarrow> real \<Rightarrow> real list \<Rightarrow> int \<Rightarrow> int \<Rightarrow> real \<Rightarrow> real option" where
  "bc_low_face flag np nuCell nuPrev_i per adj bcm =
     (if flag = 0 then (if np < 2 then rd nuPrev_i per else Some nuCell)
      else if flag = 1 then map_option (\<lambda>p. 2 * bcm - p) (rd nuPrev_i adj)
      else if flag = 2 then rd nuPrev_i adj
      else if flag = 3 then rd nuPrev_i adj
      else if flag = 4 then map_option (\<lambda>p. 2 * bcm - p) (rd nuPrev_i adj)
      else Some nuCell)"

definition bc_high_face ::
  "int \<Rightarrow> int \<Rightarrow> real \<Rightarrow> real list \<Rightarrow> int \<Rightarrow> int \<Rightarrow> real \<Rightarrow> real option" where
  "bc_high_face flag np nuCell nuPrev_i per adj bcp =
     (if flag = 0 then (if np < 2 then rd nuPrev_i per else Some nuCell)
      else if flag = 1 then map_option (\<lambda>p. 2 * bcp - p) (rd nuPrev_i adj)
      else if flag = 2 then map_option (\<lambda>p. 2 * bcp - p) (rd nuPrev_i adj)
      else if flag = 3 then rd nuPrev_i adj
      else if flag = 4 then rd nuPrev_i adj
      else Some nuCell)"

text \<open>A condition \<^verbatim>\<open>coord < lo && !ghost[nb]\<close>: the flag is read only when the
  comparison holds.\<close>

definition beyond_and_true :: "bool \<Rightarrow> bool list \<Rightarrow> int \<Rightarrow> bool option" where
  "beyond_and_true beyond gh nb =
     (if beyond then map_option Not (rd gh nb) else Some False)"

text \<open>The value of \<^verbatim>\<open>nuCell\<close> before the final clamp of \<^verbatim>\<open>compute_bc\<close>: the first
  face whose condition holds decides, in the order z-low, z-high, y-low, y-high, x-low,
  x-high.\<close>

definition bc_value ::
  "grid_cfg \<Rightarrow> grid_state \<Rightarrow> real \<Rightarrow> real list \<Rightarrow> int \<Rightarrow> real \<Rightarrow> real option" where
  "bc_value c s nuCell nuPrev_i grid bulk = do {
     let lhs = grid - 1;
     let rhs = grid + 1;
     let bwd = grid - nX c;
     let fwd = grid + nX c;
     let down = grid - nX c * nY c;
     let up = grid + nX c * nY c;
     (x, y, z) \<leftarrow> rd (xGrid c) grid;
     zl \<leftarrow> beyond_and_true (z < zlo c) (ghost s) up;
     if zl then
       bc_low_face (zbcflag c) (nprocs c) nuCell nuPrev_i (grid + nX c * nY c * nz c) up (zbcm s)
     else do {
       zh \<leftarrow> beyond_and_true (z > zhi c) (ghost s) down;
       if zh then
         bc_high_face (zbcflag c) (nprocs c) nuCell nuPrev_i (grid - nX c * nY c * nz c) down bulk
       else do {
         yl \<leftarrow> beyond_and_true (y < ylo c) (ghost s) fwd;
         if yl then
           bc_low_face (ybcflag c) (nprocs c) nuCell nuPrev_i (grid + nX c * ny c) fwd (ybcm s)
         else do {
           yh \<leftarrow> beyond_and_true (y > yhi c) (ghost s) bwd;
           if yh then
             bc_high_face (ybcflag c) (nprocs c) nuCell nuPrev_i (grid - nX c * ny c) bwd (ybcp s)
           else do {
             xl \<leftarrow> beyond_and_true (x < xlo c) (ghost s) rhs;
             if xl then
               bc_low_face (xbcflag c) (nprocs c) nuCell nuPrev_i (grid + nx c) rhs (xbcm s)
             else do {
               xh \<leftarrow> beyond_and_true (x > xhi c) (ghost s) lhs;
               if xh then
                 bc_high_face (xbcflag c) (nprocs c) nuCell nuPrev_i (grid - nx c) lhs (xbcp s)
               else Some nuCell
             }
           }
         }
       }
     }
   }"

text \<open>\<^verbatim>\<open>compute_bc(nuCell, nuPrev, grid, bulk)\<close>: the value written to \<^verbatim>\<open>nuCell\<close>,
  after \<^verbatim>\<open>if (nuCell <= 0) nuCell = 1e-20\<close>.\<close>

definition compute_bc ::
  "grid_cfg \<Rightarrow> grid_state \<Rightarrow> real \<Rightarrow> real list \<Rightarrow> int \<Rightarrow> real \<Rightarrow> real option" where
  "compute_bc c s nuCell nuPrev_i grid bulk = do {
     v \<leftarrow> bc_value c s nuCell nuPrev_i grid bulk;
     Some (if v \<le> 0 then floor_conc else v)
   }"

section \<open>One diffusion step\<close>

text \<open>\<^verbatim>\<open>update_grids()\<close>: the active region is resized to \<open>bnz + 2\<close> layers and the
  ghost flags are recomputed from the cell centres.\<close>

definition update_grids :: "grid_cfg \<Rightarrow> grid_state \<Rightarrow> grid_state option" where
  "update_grids c s = do {
     let bzhi' = real_of_int (bnz c) * stepz c;
     let nXYZ' = nX c * nY c * (bnz c + 2);
     gh \<leftarrow> for_loop [0..<nat nXYZ']
       (\<lambda>grid gh. do {
          (x, y, z) \<leftarrow> rd (xGrid c) (int grid);
          wr gh (int grid)
            (x < 0 \<or> y < 0 \<or> z < 0
             \<or> x > fst (subhi c) \<or> y > fst (snd (subhi c)) \<or> z > bzhi')
        }) (ghost s);
     Some (s\<lparr>bzhi := bzhi', nXYZ := nXYZ', ghost := gh\<rparr>)
   }"

text \<open>
  The halo exchange at the head of \<^verbatim>\<open>diffusion()\<close>. \<open>BUFMIN\<close> is 1000, and the quotient
  \<^verbatim>\<open>(ncells * nnus) / BUFMIN\<close> is C's division, which truncates towards zero. A buffer
  grows when its size, counted in doubles, is below the number of cells:
  \<^verbatim>\<open>if (recv_buff_size < nrecvcells) recv_buff_size += ((nrecvcells * nnus) / BUFMIN + 1) * BUFMIN\<close>,
  and the same for the send buffer; \<^verbatim>\<open>memory->grow\<close> keeps the old content (the new
  entries, uninitialised in C++, are 0 here; the packing overwrites what is sent).
\<close>

definition c_div :: "int \<Rightarrow> int \<Rightarrow> int" where
  "c_div a b = (if (a < 0) = (b < 0) then \<bar>a\<bar> div \<bar>b\<bar> else - (\<bar>a\<bar> div \<bar>b\<bar>))"

definition grow_buffers :: "grid_cfg \<Rightarrow> grid_state \<Rightarrow> grid_state" where
  "grow_buffers c s =
     (let s1 = (if recv_buff_size s < nrecvcells c
                then s\<lparr>recv_buff_size :=
                        recv_buff_size s + (c_div (nrecvcells c * int (nnus c)) 1000 + 1) * 1000\<rparr>
                else s)
      in if send_buff_size s1 < nsendcells c
         then (let new_size = send_buff_size s1 + (c_div (nsendcells c * int (nnus c)) 1000 + 1) * 1000
               in s1\<lparr>send_buff_size := new_size,
                     sendbuff := sendbuff s1 @ replicate (nat new_size - length (sendbuff s1)) 0\<rparr>)
         else s1)"

text \<open>The packing of the send buffer:
  \<^verbatim>\<open>copy(nuGrid[i] + 1, nuGrid[i] + 1 + nnus, sendbuff + c * nnus)\<close> with
  \<open>i = sendcells[c]\<close>. A write beyond \<open>sendbuff\<close> is undefined behaviour.\<close>

definition pack_cell :: "grid_cfg \<Rightarrow> grid_state \<Rightarrow> nat \<Rightarrow> real list \<Rightarrow> real list option" where
  "pack_cell c s cc buf = do {
     i \<leftarrow> rd (sendcells c) (int cc);
     row \<leftarrow> rd (nuGrid s) i;
     for_loop [0..<nnus c]
       (\<lambda>k buf. do {
          v \<leftarrow> rd row (1 + int k);
          wr buf (int cc * int (nnus c) + int k) v
        }) buf
   }"

text \<open>The copy of the received halo values into \<open>nuGrid\<close>:
  \<^verbatim>\<open>copy(recvbuff + c*nnus, recvbuff + c*nnus + nnus, &nuGrid[recvcells[c]][1])\<close>.
  The values that \<^verbatim>\<open>MPI_Irecv\<close> delivers are an input of the model, the list \<open>recvbuff\<close>;
  they lie in a buffer of \<open>bsize\<close> doubles, and an access at or beyond \<open>bsize\<close> is
  undefined behaviour.\<close>

definition unpack_cell ::
  "grid_cfg \<Rightarrow> int \<Rightarrow> real list \<Rightarrow> nat \<Rightarrow> real list list \<Rightarrow> real list list option" where
  "unpack_cell c bsize recvbuff cc g = do {
     cell \<leftarrow> rd (recvcells c) (int cc);
     for_loop [0..<nnus c]
       (\<lambda>k g. do {
          v \<leftarrow> (if int cc * int (nnus c) + int k < bsize
                then rd recvbuff (int cc * int (nnus c) + int k) else None);
          wr2 g cell (1 + int k) v
        }) g
   }"

definition halo_unpack ::
  "grid_cfg \<Rightarrow> int \<Rightarrow> real list \<Rightarrow> real list list \<Rightarrow> real list list option" where
  "halo_unpack c bsize recvbuff g =
     for_loop [0..<nat (nrecvcells c)] (unpack_cell c bsize recvbuff) g"

definition halo_exchange :: "grid_cfg \<Rightarrow> grid_state \<Rightarrow> real list \<Rightarrow> grid_state option" where
  "halo_exchange c s recvbuff = do {
     let s1 = grow_buffers c s;
     sb \<leftarrow> for_loop [0..<nat (nsendcells c)] (pack_cell c s1) (sendbuff s1);
     g \<leftarrow> halo_unpack c (recv_buff_size s1) recvbuff (nuGrid s1);
     Some (s1\<lparr>sendbuff := sb, nuGrid := g\<rparr>)
   }"

text \<open>The first species loop of \<^verbatim>\<open>diffusion()\<close> loads the six face values of species
  \<open>i\<close> into the members \<open>xbcm\<close> ... \<open>zbcp\<close> (times 1000 in mole units).\<close>

definition load_bc :: "grid_cfg \<Rightarrow> nat \<Rightarrow> grid_state \<Rightarrow> grid_state option" where
  "load_bc c i s = do {
     row \<leftarrow> rd (iniS c) (int i);
     s1 \<leftarrow> rd row 1;
     s2 \<leftarrow> rd row 2;
     s3 \<leftarrow> rd row 3;
     s4 \<leftarrow> rd row 4;
     s5 \<leftarrow> rd row 5;
     s6 \<leftarrow> rd row 6;
     if unit c = 0 then
       Some (s\<lparr>xbcm := s1 * 1000, xbcp := s2 * 1000, ybcm := s3 * 1000,
               ybcp := s4 * 1000, zbcm := s5 * 1000, zbcp := s6 * 1000\<rparr>)
     else
       Some (s\<lparr>xbcm := s1, xbcp := s2, ybcm := s3, ybcp := s4, zbcm := s5, zbcp := s6\<rparr>)
   }"

text \<open>\<^verbatim>\<open>compute_bulk(nu)\<close>: the mass balance of the bulk liquid. It divides by the
  reactor volume \<open>rvol\<close> and by \<open>rvol * yhi * xhi\<close>.\<close>

definition compute_bulk :: "grid_cfg \<Rightarrow> nat \<Rightarrow> grid_state \<Rightarrow> grid_state option" where
  "compute_bulk c nu s = do {
     sumR \<leftarrow> for_loop [0..<nat (nx c * ny c * k_nz c)]
       (\<lambda>i sumR. do { r \<leftarrow> rd2 (nuR s) (int nu) (int i); Some (sumR + r) }) 0;
     b \<leftarrow> rd (nuBS s) (int nu);
     if rvol c = 0 \<or> rvol c * yhi c * xhi c = 0 then None else do {
       bs \<leftarrow> wr (nuBS s) (int nu)
         (b + ((q c / rvol c) * (zbcp s - b)
               + (af c / (rvol c * yhi c * xhi c)) * sumR * stepx c * stepy c * stepz c)
              * dt c * real_of_int (nevery c));
       Some (s\<lparr>nuBS := bs\<rparr>)
     }
   }"

text \<open>The body of the first species loop: load the face values, then
  \<^verbatim>\<open>if (iter == 1 && strcmp(bio->nuName[i], "o2") != 0 && q >= 0 && af >= 0) compute_bulk(i)\<close>.\<close>

definition bulk_step :: "grid_cfg \<Rightarrow> int \<Rightarrow> nat \<Rightarrow> grid_state \<Rightarrow> grid_state option" where
  "bulk_step c iter i s = do {
     s' \<leftarrow> load_bc c i s;
     if iter = 1 then do {
       name \<leftarrow> rd (nuName c) (int i);
       if name \<noteq> ''o2'' \<and> q c \<ge> 0 \<and> af c \<ge> 0 then compute_bulk c i s' else Some s'
     } else Some s'
   }"

text \<open>The copy \<^verbatim>\<open>nuPrev[i][grid] = nuGrid[grid][i]\<close> over all local cells.\<close>

definition snapshot :: "nat \<Rightarrow> grid_state \<Rightarrow> grid_state option" where
  "snapshot i s =
     for_loop [0..<nat (nXYZ s)]
       (\<lambda>grid s. do {
          v \<leftarrow> rd2 (nuGrid s) (int grid) (int i);
          p \<leftarrow> wr2 (nuPrev s) (int i) (int grid) v;
          Some (s\<lparr>nuPrev := p\<rparr>)
        }) s"

text \<open>The index of a true cell in the kinetics arrays \<open>nuR\<close> and \<open>nuS\<close>.\<close>

definition nuR_index :: "grid_cfg \<Rightarrow> int \<Rightarrow> int option" where
  "nuR_index c grid =
   (if stepx c = 0 \<or> stepy c = 0 \<or> stepz c = 0 then None else do {
     (x, y, z) \<leftarrow> rd (xGrid c) grid;
     let ix = \<lfloor>(x - fst (sublo c)) / stepx c\<rfloor>;
     let iy = \<lfloor>(y - fst (snd (sublo c))) / stepy c\<rfloor>;
     let iz = \<lfloor>(z - snd (snd (sublo c))) / stepz c\<rfloor>;
     Some (iz * fst (subn c) * fst (snd (subn c)) + iy * fst (subn c) + ix)
   })"

text \<open>The body of the loop "solve diffusion and reaction" for species \<open>i\<close> at cell
  \<open>grid\<close>; the second component of the loop state is \<open>p_maxS\<close>.\<close>

definition update_cell ::
  "grid_cfg \<Rightarrow> nat \<Rightarrow> nat \<Rightarrow> grid_state \<times> real \<Rightarrow> (grid_state \<times> real) option" where
  "update_cell c i grid sp = do {
     let s = fst sp;
     let p_maxS = snd sp;
     gh \<leftarrow> rd (ghost s) (int grid);
     prev \<leftarrow> rd (nuPrev s) (int i);
     s' \<leftarrow>
       (if \<not> gh then do {
          ind \<leftarrow> nuR_index c (int grid);
          d \<leftarrow> rd (diffD c) (int i);
          r \<leftarrow> rd2 (nuR s) (int i) ind;
          v \<leftarrow> compute_flux c s d prev r (int grid);
          g1 \<leftarrow> wr2 (nuGrid s) (int grid) (int i) v;
          r1 \<leftarrow> wr2 (nuR s) (int i) ind 0;
          if v > 0 then do {
            s1 \<leftarrow> wr2 (nuS s) (int i) ind (if unit c = 0 then v / 1000 else v);
            Some (s\<lparr>nuGrid := g1, nuR := r1, nuS := s1\<rparr>)
          } else do {
            g2 \<leftarrow> wr2 g1 (int grid) (int i) floor_conc;
            s1 \<leftarrow> wr2 (nuS s) (int i) ind floor_conc;
            Some (s\<lparr>nuGrid := g2, nuR := r1, nuS := s1\<rparr>)
          }
        } else do {
          old \<leftarrow> rd2 (nuGrid s) (int grid) (int i);
          bulk \<leftarrow> rd (nuBS s) (int i);
          v \<leftarrow> compute_bc c s old prev (int grid) bulk;
          g1 \<leftarrow> wr2 (nuGrid s) (int grid) (int i) v;
          Some (s\<lparr>nuGrid := g1\<rparr>)
        });
     cur \<leftarrow> rd2 (nuGrid s') (int grid) (int i);
     Some (s', if p_maxS < cur then cur else p_maxS)
   }"

text \<open>The body of the loop "check convergence criteria"; the loop state is \<open>p_conv\<close>.\<close>

definition check_cell ::
  "grid_cfg \<Rightarrow> grid_state \<Rightarrow> nat \<Rightarrow> real \<Rightarrow> nat \<Rightarrow> bool \<Rightarrow> bool option" where
  "check_cell c s i maxS grid p_conv = do {
     gh \<leftarrow> rd (ghost s) (int grid);
     if \<not> gh then do {
       ratio \<leftarrow>
         (if rflag c = 0 then do {
            let dv = (if maxS = 0 then 1 else maxS);
            cur \<leftarrow> rd2 (nuGrid s) (int grid) (int i);
            prv \<leftarrow> rd2 (nuPrev s) (int i) (int grid);
            let rate = cur / dv;
            let prevRate = prv / dv;
            Some \<bar>rate - prevRate\<bar>
          } else Some 1000);
       Some (p_conv \<and> ratio < tol c)
     } else Some p_conv
   }"

text \<open>The work on one unconverged liquid species: snapshot, update of every cell,
  \<^verbatim>\<open>maxS = MAX(maxS, p_maxS)\<close> with \<open>maxS = 0\<close> before, convergence check. The result is
  the new state and \<open>p_conv\<close>. One thread runs the whole range \<open>0 .. nXYZ - 1\<close>.\<close>

definition species_pass ::
  "grid_cfg \<Rightarrow> nat \<Rightarrow> grid_state \<Rightarrow> (grid_state \<times> bool) option" where
  "species_pass c i s = do {
     s1 \<leftarrow> snapshot i s;
     (s2, p_maxS) \<leftarrow> for_loop [0..<nat (nXYZ s1)] (update_cell c i) (s1, 0);
     let maxS = (if 0 > p_maxS then 0 else p_maxS);
     p_conv \<leftarrow> for_loop [0..<nat (nXYZ s2)] (check_cell c s2 i maxS) True;
     Some (s2, p_conv)
   }"

text \<open>The body of the second species loop:
  \<^verbatim>\<open>if (bio->nuType[i] == 0 && !nuConv[i]) { ... conv[i] &= p_conv; }\<close>.\<close>

definition diffusion_species ::
  "grid_cfg \<Rightarrow> bool list \<Rightarrow> nat \<Rightarrow> grid_state \<times> bool list \<Rightarrow> (grid_state \<times> bool list) option" where
  "diffusion_species c nuConv i sc = do {
     let s = fst sc;
     let conv = snd sc;
     ty \<leftarrow> rd (nuType c) (int i);
     todo \<leftarrow> (if ty = 0 then map_option Not (rd nuConv (int i)) else Some False);
     if todo then do {
       (s', p_conv) \<leftarrow> species_pass c i s;
       cv \<leftarrow> rd conv (int i);
       conv' \<leftarrow> wr conv (int i) (cv \<and> p_conv);
       Some (s', conv')
     } else Some (s, conv)
   }"

text \<open>\<^verbatim>\<open>diffusion(nuConv, iter, diffT)\<close> up to the reduction: the new state of this
  process and its local array \<open>conv\<close>.\<close>

definition diffusion_local ::
  "grid_cfg \<Rightarrow> grid_state \<Rightarrow> bool list \<Rightarrow> int \<Rightarrow> real \<Rightarrow> real list
   \<Rightarrow> (grid_state \<times> bool list) option" where
  "diffusion_local c s nuConv iter dT recvbuff = do {
     s0 \<leftarrow> (if iter = 1 \<and> bl c > 0 then update_grids c s else Some s);
     let s1 = s0\<lparr>diffT := dT\<rparr>;
     let conv = replicate (nnus c + 1) True;
     s2 \<leftarrow> halo_exchange c s1 recvbuff;
     s3 \<leftarrow> for_loop [1..<nnus c + 1] (bulk_step c iter) s2;
     for_loop [1..<nnus c + 1] (diffusion_species c nuConv) (s3, conv)
   }"

text \<open>
  The processes of the run. Each holds its own grid, its own array \<open>nuConv\<close> and the halo
  values it receives in this call. For \<open>i = 1 .. nnus\<close>, with \<^verbatim>\<open>int iconv = conv[i]\<close>,
  \<^verbatim>\<open>MPI_Allreduce(&iconv, &nuConv[i], 1, MPI_INT, MPI_BAND, world)\<close> computes the
  conjunction of the flags \<open>conv[i]\<close> of all processes, as an \<^verbatim>\<open>int\<close> 0 or 1, and stores that
  \<^verbatim>\<open>int\<close> at the address \<^verbatim>\<open>&nuConv[i]\<close>. \<^verbatim>\<open>nuConv\<close> is a \<^verbatim>\<open>bool *\<close>, so the call writes the
  bytes of an \<^verbatim>\<open>int\<close> over \<^verbatim>\<open>nuConv[i]\<close> and the elements after it. The model takes an \<^verbatim>\<open>int\<close>
  of four bytes stored low byte first and a \<^verbatim>\<open>bool\<close> of one byte: \<^verbatim>\<open>nuConv[i]\<close> gets the
  conjunction, \<^verbatim>\<open>nuConv[i+1]\<close>, \<^verbatim>\<open>nuConv[i+2]\<close> and \<^verbatim>\<open>nuConv[i+3]\<close> get 0, and a write beyond
  the array is undefined behaviour (\<^verbatim>\<open>FixKinetics::init\<close> allocates
  \<^verbatim>\<open>nuConv = new bool[nnus+1]()\<close>).
\<close>

record process =
  p_cfg :: grid_cfg
  p_state :: grid_state
  p_nuConv :: "bool list"
  p_recvbuff :: "real list"

definition allreduce_band :: "bool list list \<Rightarrow> nat \<Rightarrow> bool option" where
  "allreduce_band convs i =
     map_option (list_all (\<lambda>b. b)) (those (map (\<lambda>cv. rd cv (int i)) convs))"

definition store_int :: "bool list \<Rightarrow> nat \<Rightarrow> bool \<Rightarrow> bool list option" where
  "store_int nc i b = do {
     n0 \<leftarrow> wr nc (int i) b;
     n1 \<leftarrow> wr n0 (int i + 1) False;
     n2 \<leftarrow> wr n1 (int i + 2) False;
     wr n2 (int i + 3) False
   }"

definition reduce_conv :: "bool list list \<Rightarrow> nat \<Rightarrow> bool list \<Rightarrow> bool list option" where
  "reduce_conv convs n nuConv =
     for_loop [1..<n + 1]
       (\<lambda>i nc. do { b \<leftarrow> allreduce_band convs i; store_int nc i b }) nuConv"

definition diffusion :: "process list \<Rightarrow> int \<Rightarrow> real \<Rightarrow> process list option" where
  "diffusion ps iter dT = do {
     rs \<leftarrow> those (map (\<lambda>p. diffusion_local (p_cfg p) (p_state p) (p_nuConv p) iter dT
                              (p_recvbuff p)) ps);
     those (map (\<lambda>(p, r). do {
                   nc \<leftarrow> reduce_conv (map snd rs) (nnus (p_cfg p)) (p_nuConv p);
                   Some (p\<lparr>p_state := fst r, p_nuConv := nc\<rparr>)
                 }) (zip ps rs))
   }"

section \<open>The check of the cell sizes at initialisation\<close>

text \<open>\<^verbatim>\<open>isEuqal(a, b, c)\<close>, as written: the three disjuncts are the same comparison.\<close>

definition isEuqal :: "real \<Rightarrow> real \<Rightarrow> real \<Rightarrow> bool" where
  "isEuqal a b c =
     (let epsilon = 1 / 10 ^ 10
      in if \<bar>a - b\<bar> > epsilon \<or> \<bar>a - b\<bar> > epsilon \<or> \<bar>a - b\<bar> > epsilon then False
         else True)"

datatype init_error = Grid_is_not_cubic

text \<open>The part of \<^verbatim>\<open>FixKineticsDiffusion::init()\<close> that computes the cell sizes from the
  domain box and the cell counts and ends the run with "Grid is not cubic"; on success
  the three sizes are returned.\<close>

definition init_steps ::
  "real \<Rightarrow> real \<Rightarrow> real \<Rightarrow> real \<Rightarrow> real \<Rightarrow> real \<Rightarrow> int \<Rightarrow> int \<Rightarrow> int
   \<Rightarrow> init_error + (real \<times> real \<times> real)" where
  "init_steps x_lo x_hi y_lo y_hi z_lo z_hi n_x n_y n_z =
     (let step_x = (x_hi - x_lo) / real_of_int n_x;
          step_y = (y_hi - y_lo) / real_of_int n_y;
          step_z = (z_hi - z_lo) / real_of_int n_z
      in if \<not> isEuqal step_x step_y step_z then Inl Grid_is_not_cubic
         else Inr (step_x, step_y, step_z))"

section \<open>The coupled convergence loop\<close>

text \<open>
  \<^verbatim>\<open>FixKinetics::integration()\<close>. The pH solver, the thermodynamics, the growth
  kinetics and the diffusion stepper are the fixes registered at \<^verbatim>\<open>init()\<close>; a null
  pointer is \<^term>\<open>None\<close>. They act on the rest of the simulation state, of type \<open>'s\<close>.
  The stepper gets \<open>nuConv\<close>, the iteration number and the diffusion time step, and
  returns the new state and the new flags, or \<^term>\<open>None\<close> when it runs into undefined
  behaviour.
\<close>

record 's coupling =
  ph :: "('s \<Rightarrow> 's) option"
  init_activity :: "'s \<Rightarrow> 's"
  thermo :: "('s \<Rightarrow> 's) option"
  monod :: "(real \<Rightarrow> 's \<Rightarrow> 's) option"
  stepper :: "(bool list \<Rightarrow> int \<Rightarrow> real \<Rightarrow> 's \<Rightarrow> ('s \<times> bool list) option) option"

record kinetics_cfg =
  kin_nnus :: nat
  kin_nuName :: "string list"
  kin_diffT :: real
  kin_dt :: real
  kin_nevery :: int

text \<open>What the loop prints: the name of a species whose convergence is forced, and the
  number of iterations at the end.\<close>

datatype printed = Forced string | Number_of_iteration int

text \<open>The initialisation of the flags: true for \<open>h2o\<close> and \<open>h\<close>, false otherwise.\<close>

definition init_nuConv :: "kinetics_cfg \<Rightarrow> bool list \<Rightarrow> bool list option" where
  "init_nuConv k nuConv =
     for_loop [1..<kin_nnus k + 1]
       (\<lambda>i nc. do {
          name \<leftarrow> rd (kin_nuName k) (int i);
          if name = ''h2o'' then wr nc (int i) True
          else if name = ''h'' then wr nc (int i) True
          else wr nc (int i) False
        }) nuConv"

text \<open>\<^verbatim>\<open>for (i = 1; i <= nnus; i++) if (!nuConv[i]) { isConv = false; break; }\<close>:
  the value of \<open>isConv\<close>.\<close>

fun check_conv :: "nat list \<Rightarrow> bool list \<Rightarrow> bool option" where
  "check_conv [] nuConv = Some True"
| "check_conv (i # is) nuConv =
     (case rd nuConv (int i) of
        None \<Rightarrow> None
      | Some b \<Rightarrow> if \<not> b then Some False else check_conv is nuConv)"

text \<open>The loop that forces the flags once \<open>iteration > 10000\<close>.\<close>

definition force_conv ::
  "kinetics_cfg \<Rightarrow> bool list \<times> printed list \<Rightarrow> (bool list \<times> printed list) option" where
  "force_conv k =
     for_loop [1..<kin_nnus k + 1]
       (\<lambda>i (nc, out). do {
          b \<leftarrow> rd nc (int i);
          if \<not> b then do {
            nc' \<leftarrow> wr nc (int i) True;
            name \<leftarrow> rd (kin_nuName k) (int i);
            Some (nc', out @ [Forced name])
          } else Some (nc, out)
        })"

text \<open>The calls of one pass that come before the stepper: \<^verbatim>\<open>ph->solve_ph()\<close> or
  \<^verbatim>\<open>init_activity()\<close>, then \<^verbatim>\<open>thermo->thermo()\<close>, then \<^verbatim>\<open>monod->growth(diffT)\<close>.\<close>

definition before_stepper :: "'s coupling \<Rightarrow> kinetics_cfg \<Rightarrow> 's \<Rightarrow> 's" where
  "before_stepper env k st =
     (let st1 = (case ph env of Some solve_ph \<Rightarrow> solve_ph st | None \<Rightarrow> init_activity env st);
          st2 = (case thermo env of Some f \<Rightarrow> f st1 | None \<Rightarrow> st1)
      in case monod env of Some growth \<Rightarrow> growth (kin_diffT k) st2 | None \<Rightarrow> st2)"

text \<open>\<^verbatim>\<open>while (!isConv) { ... }\<close>. The arguments are the values of \<open>iteration\<close>,
  \<open>nuConv\<close>, the state and the output at the head of the loop; the result holds them at
  the exit.\<close>

function integration_loop ::
  "'s coupling \<Rightarrow> kinetics_cfg \<Rightarrow> int \<Rightarrow> bool list \<Rightarrow> 's \<Rightarrow> printed list
   \<Rightarrow> (int \<times> bool list \<times> 's \<times> printed list) option" where
  "integration_loop env k iteration nuConv st out =
     (let iteration' = iteration + 1;
          st3 = before_stepper env k st
      in case stepper env of
           None \<Rightarrow> Some (iteration', nuConv, st3, out)
         | Some diffusion_step \<Rightarrow>
             (case diffusion_step nuConv iteration' (kin_diffT k) st3 of
                None \<Rightarrow> None
              | Some (st4, nuConv') \<Rightarrow>
                  (case check_conv [1..<kin_nnus k + 1] nuConv' of
                     None \<Rightarrow> None
                   | Some isConv \<Rightarrow>
                       if iteration' > 10000 then
                         (case force_conv k (nuConv', out) of
                            None \<Rightarrow> None
                          | Some (nuConv'', out') \<Rightarrow> Some (iteration', nuConv'', st4, out'))
                       else if isConv then Some (iteration', nuConv', st4, out)
                       else integration_loop env k iteration' nuConv' st4 out)))"
  by pat_completeness auto
termination
  by (relation "measure (\<lambda>(env, k, iteration, nuConv, st, out). nat (10001 - iteration))") auto

declare integration_loop.simps [simp del]

definition integration ::
  "'s coupling \<Rightarrow> kinetics_cfg \<Rightarrow> bool list \<Rightarrow> 's
   \<Rightarrow> (int \<times> bool list \<times> 's \<times> printed list) option" where
  "integration env k nuConv st = do {
     nc \<leftarrow> init_nuConv k nuConv;
     (iteration, nc', st', out) \<leftarrow> integration_loop env k 0 nc st [];
     let out' = out @ [Number_of_iteration iteration];
     let st'' = (case monod env of
                   Some growth \<Rightarrow> growth (kin_dt k * real_of_int (kin_nevery k)) st'
                 | None \<Rightarrow> st');
     Some (iteration, nc', st'', out')
   }"

section \<open>The update of the particles from the growth field\<close>

text \<open>
  \<^verbatim>\<open>FixMonodCyanoKokkos::update_atoms()\<close>. The per-atom arrays of \<^verbatim>\<open>Atom\<close> are lists;
  \<open>mask\<close> and \<open>groupbit\<close> are 32-bit masks. \<^verbatim>\<open>grid->cell(x)\<close>, the index of the grid cell
  that contains the point \<open>x\<close>, is defined outside the repository sample and is a
  parameter. \<^verbatim>\<open>pow(b, third)\<close> is \<^term>\<open>b powr (1 / 3)\<close>, the cube root for \<open>b \<ge> 0\<close>.
\<close>

record atoms =
  a_nlocal :: int
  a_x :: "(real \<times> real \<times> real) list"
  a_radius :: "real list"
  a_rmass :: "real list"
  a_outer_radius :: "real list"
  a_outer_mass :: "real list"
  a_mask :: "32 word list"

record monod_cfg =
  m_groupbit :: "32 word"
  m_igroup :: int
  m_dt :: real
  m_growth :: "real list list list"
  m_cell :: "real \<times> real \<times> real \<Rightarrow> int"

definition update_atom :: "monod_cfg \<Rightarrow> nat \<Rightarrow> atoms \<Rightarrow> atoms option" where
  "update_atom m i a = do {
     let three_quarters_pi = 3 / (4 * pi);
     let four_thirds_pi = 4 * pi / 3;
     let third = 1 / 3;
     mk \<leftarrow> rd (a_mask a) (int i);
     if mk AND m_groupbit m \<noteq> 0 then do {
       xi \<leftarrow> rd (a_x a) (int i);
       let cell = m_cell m xi;
       mass \<leftarrow> rd (a_rmass a) (int i);
       r \<leftarrow> rd (a_radius a) (int i);
       let density = mass / (four_thirds_pi * r * r * r);
       plane \<leftarrow> rd2 (m_growth m) (m_igroup m) cell;
       g \<leftarrow> rd plane 0;
       let mass' = mass * (1 + g * m_dt m);
       rmass' \<leftarrow> wr (a_rmass a) (int i) mass';
       let r' = (three_quarters_pi * (mass' / density)) powr third;
       radius' \<leftarrow> wr (a_radius a) (int i) r';
       outer_mass' \<leftarrow> wr (a_outer_mass a) (int i) 0;
       outer_radius' \<leftarrow> wr (a_outer_radius a) (int i) r';
       Some (a\<lparr>a_rmass := rmass', a_radius := radius',
               a_outer_mass := outer_mass', a_outer_radius := outer_radius'\<rparr>)
     } else Some a
   }"

definition update_atoms :: "monod_cfg \<Rightarrow> atoms \<Rightarrow> atoms option" where
  "update_atoms m a = for_loop [0..<nat (a_nlocal a)] (update_atom m) a"

section \<open>Vocabulary for the statements\<close>

text \<open>
  The six faces of the domain, in the order in which \<^verbatim>\<open>compute_bc\<close> tests them. A cell
  qualifies for a face when its centre lies beyond the face and its neighbour across the
  face is a true cell (\<^verbatim>\<open>coord < lo && !ghost[nb]\<close>); \<open>bc_face\<close> is the first face the
  cell qualifies for.
\<close>

datatype face = ZLow | ZHigh | YLow | YHigh | XLow | XHigh

definition true_cell :: "grid_state \<Rightarrow> int \<Rightarrow> bool" where
  "true_cell s grid = (rd (ghost s) grid = Some False)"

definition adjacent :: "grid_cfg \<Rightarrow> int \<Rightarrow> face \<Rightarrow> int" where
  "adjacent c grid f =
     (case f of
        ZLow \<Rightarrow> grid + nX c * nY c
      | ZHigh \<Rightarrow> grid - nX c * nY c
      | YLow \<Rightarrow> grid + nX c
      | YHigh \<Rightarrow> grid - nX c
      | XLow \<Rightarrow> grid + 1
      | XHigh \<Rightarrow> grid - 1)"

definition beyond :: "grid_cfg \<Rightarrow> real \<times> real \<times> real \<Rightarrow> face \<Rightarrow> bool" where
  "beyond c xyz f =
     (case xyz of (x, y, z) \<Rightarrow>
        (case f of
           ZLow \<Rightarrow> z < zlo c
         | ZHigh \<Rightarrow> z > zhi c
         | YLow \<Rightarrow> y < ylo c
         | YHigh \<Rightarrow> y > yhi c
         | XLow \<Rightarrow> x < xlo c
         | XHigh \<Rightarrow> x > xhi c))"

definition qualifies :: "grid_cfg \<Rightarrow> grid_state \<Rightarrow> int \<Rightarrow> real \<times> real \<times> real \<Rightarrow> face \<Rightarrow> bool" where
  "qualifies c s grid xyz f = (beyond c xyz f \<and> true_cell s (adjacent c grid f))"

definition bc_face :: "grid_cfg \<Rightarrow> grid_state \<Rightarrow> int \<Rightarrow> face option" where
  "bc_face c s grid =
     (case rd (xGrid c) grid of
        None \<Rightarrow> None
      | Some xyz \<Rightarrow> find (qualifies c s grid xyz) [ZLow, ZHigh, YLow, YHigh, XLow, XHigh])"

text \<open>The kinds that are Dirichlet on a face: \<open>dd\<close> (1) on both faces of the axis, \<open>dn\<close> (4)
  on the low face, \<open>nd\<close> (2) on the high face.\<close>

definition dirichlet_on :: "grid_cfg \<Rightarrow> face \<Rightarrow> bool" where
  "dirichlet_on c f =
     (case f of
        ZLow \<Rightarrow> zbcflag c = 1 \<or> zbcflag c = 4
      | ZHigh \<Rightarrow> zbcflag c = 1 \<or> zbcflag c = 2
      | YLow \<Rightarrow> ybcflag c = 1 \<or> ybcflag c = 4
      | YHigh \<Rightarrow> ybcflag c = 1 \<or> ybcflag c = 2
      | XLow \<Rightarrow> xbcflag c = 1 \<or> xbcflag c = 4
      | XHigh \<Rightarrow> xbcflag c = 1 \<or> xbcflag c = 2)"

text \<open>The boundary value \<^verbatim>\<open>compute_bc\<close> uses on a face: the loaded member, and the
  argument \<open>bulk\<close> on the z-high face.\<close>

definition face_value :: "grid_state \<Rightarrow> real \<Rightarrow> face \<Rightarrow> real" where
  "face_value s bulk f =
     (case f of
        ZLow \<Rightarrow> zbcm s
      | ZHigh \<Rightarrow> bulk
      | YLow \<Rightarrow> ybcm s
      | YHigh \<Rightarrow> ybcp s
      | XLow \<Rightarrow> xbcm s
      | XHigh \<Rightarrow> xbcp s)"

text \<open>The boundary value prescribed for species \<open>i\<close> on a face: the entry of its row of
  \<open>iniS\<close> (columns 1 to 6 are x-low, x-high, y-low, y-high, z-low, z-high), times 1000 in
  mole units.\<close>

definition prescribed :: "grid_cfg \<Rightarrow> nat \<Rightarrow> face \<Rightarrow> real" where
  "prescribed c i f =
     (let v = iniS c ! i ! (case f of XLow \<Rightarrow> 1 | XHigh \<Rightarrow> 2 | YLow \<Rightarrow> 3
                                   | YHigh \<Rightarrow> 4 | ZLow \<Rightarrow> 5 | ZHigh \<Rightarrow> 6)
      in if unit c = 0 then v * 1000 else v)"


text \<open>The value \<open>G[g][i]\<close> of a field \<open>G\<close>, the stored concentration \<open>nuGrid[g][i]\<close> and the
  snapshot \<open>nuPrev[i][g]\<close>.\<close>

definition cell_of :: "real list list \<Rightarrow> int \<Rightarrow> nat \<Rightarrow> real" where
  "cell_of G g i = G ! nat g ! i"

definition conc :: "grid_state \<Rightarrow> int \<Rightarrow> nat \<Rightarrow> real" where
  "conc s g i = nuGrid s ! nat g ! i"

definition prev_conc :: "grid_state \<Rightarrow> nat \<Rightarrow> int \<Rightarrow> real" where
  "prev_conc s i g = nuPrev s ! i ! nat g"

text \<open>Two states that differ at most in the data of species \<open>i\<close>: its column of
  \<open>nuGrid\<close> and its rows of \<open>nuPrev\<close>, \<open>nuR\<close> and \<open>nuS\<close>.\<close>

definition differ_in_species :: "nat \<Rightarrow> grid_state \<Rightarrow> grid_state \<Rightarrow> bool" where
  "differ_in_species i s s' \<longleftrightarrow>
     nXYZ s' = nXYZ s \<and> bzhi s' = bzhi s \<and> ghost s' = ghost s \<and> nuBS s' = nuBS s
     \<and> diffT s' = diffT s
     \<and> xbcm s' = xbcm s \<and> xbcp s' = xbcp s \<and> ybcm s' = ybcm s \<and> ybcp s' = ybcp s
     \<and> zbcm s' = zbcm s \<and> zbcp s' = zbcp s
     \<and> (\<forall>k l. l \<noteq> int i \<longrightarrow> rd2 (nuGrid s') k l = rd2 (nuGrid s) k l)
     \<and> (\<forall>k. k \<noteq> int i \<longrightarrow> rd (nuPrev s') k = rd (nuPrev s) k)
     \<and> (\<forall>k l. k \<noteq> int i \<longrightarrow> rd2 (nuR s') k l = rd2 (nuR s) k l)"

text \<open>Two states that agree on what the pass of species \<open>i\<close> reads and writes for that
  species: the sizes, the ghost flags, the bulk and face values, the time step, and the
  data of species \<open>i\<close> in \<open>nuGrid\<close>, \<open>nuPrev\<close> and \<open>nuR\<close>.\<close>

definition same_for_species :: "nat \<Rightarrow> grid_state \<Rightarrow> grid_state \<Rightarrow> bool" where
  "same_for_species i s s' \<longleftrightarrow>
     nXYZ s' = nXYZ s \<and> ghost s' = ghost s \<and> nuBS s' = nuBS s \<and> diffT s' = diffT s
     \<and> xbcm s' = xbcm s \<and> xbcp s' = xbcp s \<and> ybcm s' = ybcm s \<and> ybcp s' = ybcp s
     \<and> zbcm s' = zbcm s \<and> zbcp s' = zbcp s
     \<and> (\<forall>k. rd2 (nuGrid s') k (int i) = rd2 (nuGrid s) k (int i))
     \<and> rd (nuPrev s') (int i) = rd (nuPrev s) (int i)
     \<and> (\<forall>l. rd2 (nuR s') (int i) l = rd2 (nuR s) (int i) l)"

section \<open>A small grid\<close>

text \<open>
  One process, one true cell (flat index 13) in a box \<open>[0,1]\<^sup>3\<close> with cell size 1, and its
  ring of 26 ghost cells, laid out as \<^verbatim>\<open>init()\<close> does: \<open>grid = 9 * k + 3 * j + i\<close>, centres
  at \<open>-1/2\<close>, \<open>1/2\<close>, \<open>3/2\<close>. One liquid species with face values 1000, 4, 5, 6, 0, 7 and
  interior value 1; all three axes are \<open>dd\<close>; mass units. The snapshot \<open>nuPrev\<close> holds 42
  everywhere, which is not the field: the step has to take its own snapshot.
\<close>

definition ex_cfg :: grid_cfg where
  "ex_cfg = \<lparr> xbcflag = 1, ybcflag = 1, zbcflag = 1, unit = 1, rflag = 0,
     shearRate = 0, tol = 1 / 2, q = 1, rvol = 2, af = 1,
     nx = 1, ny = 1, nz = 1, k_nz = 1, nX = 3, nY = 3, nnus = 1,
     iniS = [[0, 0, 0, 0, 0, 0, 0], [1, 1000, 4, 5, 6, 0, 7]],
     diffD = [0, 1 / 1000],
     xlo = 0, xhi = 1, ylo = 0, yhi = 1, zlo = 0, zhi = 1,
     stepx = 1, stepy = 1, stepz = 1,
     xGrid =
       [(- 1 / 2, - 1 / 2, - 1 / 2), (1 / 2, - 1 / 2, - 1 / 2), (3 / 2, - 1 / 2, - 1 / 2),
        (- 1 / 2, 1 / 2, - 1 / 2), (1 / 2, 1 / 2, - 1 / 2), (3 / 2, 1 / 2, - 1 / 2),
        (- 1 / 2, 3 / 2, - 1 / 2), (1 / 2, 3 / 2, - 1 / 2), (3 / 2, 3 / 2, - 1 / 2),
        (- 1 / 2, - 1 / 2, 1 / 2), (1 / 2, - 1 / 2, 1 / 2), (3 / 2, - 1 / 2, 1 / 2),
        (- 1 / 2, 1 / 2, 1 / 2), (1 / 2, 1 / 2, 1 / 2), (3 / 2, 1 / 2, 1 / 2),
        (- 1 / 2, 3 / 2, 1 / 2), (1 / 2, 3 / 2, 1 / 2), (3 / 2, 3 / 2, 1 / 2),
        (- 1 / 2, - 1 / 2, 3 / 2), (1 / 2, - 1 / 2, 3 / 2), (3 / 2, - 1 / 2, 3 / 2),
        (- 1 / 2, 1 / 2, 3 / 2), (1 / 2, 1 / 2, 3 / 2), (3 / 2, 1 / 2, 3 / 2),
        (- 1 / 2, 3 / 2, 3 / 2), (1 / 2, 3 / 2, 3 / 2), (3 / 2, 3 / 2, 3 / 2)],
     sublo = (0, 0, 0), subhi = (1, 1, 1), subn = (1, 1, 1),
     bnz = 1, bl = 0, nuName = [[], ''sub''], nuType = [0, 0],
     nprocs = 1, dt = 1, nevery = 1, recvcells = [], nrecvcells = 0,
     sendcells = [], nsendcells = 0 \<rparr>"

definition ex_column :: "real list" where
  "ex_column =
     [1000, 5, 4, 1000, 0, 4, 1000, 6, 4,
      1000, 5, 4, 1000, 1, 4, 1000, 6, 4,
      1000, 5, 4, 1000, 7, 4, 1000, 6, 4]"

definition ex_state :: grid_state where
  "ex_state = \<lparr> nXYZ = 27, bzhi = 1,
     ghost =
       [True, True, True, True, True, True, True, True, True,
        True, True, True, True, False, True, True, True, True,
        True, True, True, True, True, True, True, True, True],
     nuGrid = map (\<lambda>v. [0, v]) ex_column,
     nuPrev = [map (\<lambda>v. 42) ex_column, map (\<lambda>v. 42) ex_column],
     nuBS = [0, 7],
     nuS = [[0], [1]], nuR = [[0], [1]],
     diffT = 1, xbcm = 1000, xbcp = 4, ybcm = 5, ybcp = 6, zbcm = 0, zbcp = 7,
     recv_buff_size = 1000, send_buff_size = 1000, sendbuff = replicate 1000 0 \<rparr>"

text \<open>One particle of radius 1 and mass 2 in group bit 1, with growth rate \<open>1/2\<close> in its
  cell and time step 1; a second particle outside the group.\<close>

definition ex_atoms :: atoms where
  "ex_atoms = \<lparr> a_nlocal = 2,
     a_x = [(1 / 2, 1 / 2, 1 / 2), (1 / 2, 1 / 2, 1 / 2)],
     a_radius = [1, 1], a_rmass = [2, 2],
     a_outer_radius = [1, 1], a_outer_mass = [0, 0],
     a_mask = [1, 2] \<rparr>"

definition ex_monod :: monod_cfg where
  "ex_monod = \<lparr> m_groupbit = 1, m_igroup = 0, m_dt = 1,
     m_growth = [[[1 / 2]]], m_cell = (\<lambda>x. 0) \<rparr>"

text \<open>A coupling with only a stepper, whose state counts the calls and whose flags turn
  true at the third call; one species.\<close>

definition ex_kin :: kinetics_cfg where
  "ex_kin = \<lparr> kin_nnus = 1, kin_nuName = [[], ''sub''], kin_diffT = 1, kin_dt = 1,
     kin_nevery = 1 \<rparr>"

definition ex_stepper :: "bool list \<Rightarrow> int \<Rightarrow> real \<Rightarrow> nat \<Rightarrow> (nat \<times> bool list) option" where
  "ex_stepper nc it dT s = Some (s + 1, map (\<lambda>b. it \<ge> 3) nc)"

definition ex_coupling :: "nat coupling" where
  "ex_coupling = \<lparr> ph = None, init_activity = (\<lambda>s. s), thermo = None, monod = None,
     stepper = Some ex_stepper \<rparr>"




text \<open>The small grid with two liquid species. The second one has the value 2 in every
  cell and the boundary value 50 on every face; the six face values of the state are
  those of the first species, as if loaded by an earlier call.\<close>

definition ex_cfg2 :: grid_cfg where
  "ex_cfg2 = ex_cfg\<lparr> nnus := 2,
     iniS := [[0, 0, 0, 0, 0, 0, 0], [1, 1000, 4, 5, 6, 0, 7], [2, 50, 50, 50, 50, 50, 50]],
     diffD := [0, 1 / 1000, 1 / 1000],
     nuName := [[], ''sub'', ''no2''], nuType := [0, 0, 0] \<rparr>"

definition ex_state2 :: grid_state where
  "ex_state2 = ex_state\<lparr>
     nuGrid := map (\<lambda>v. [0, v, 2]) ex_column,
     nuPrev := [map (\<lambda>v. 42) ex_column, map (\<lambda>v. 42) ex_column, map (\<lambda>v. 42) ex_column],
     nuBS := [0, 7, 8],
     nuS := [[0], [1], [2]], nuR := [[0], [1], [1]] \<rparr>"

text \<open>The two-species grid after the first diffusion call of a macro-timestep. The ghost
  cells 4, 10, 12, 14 and 16 of the first species hold \<open>2 * 50 - 1 = 99\<close>: the face values
  of the second species.\<close>

definition ex_result2 :: grid_state where
  "ex_result2 = ex_state2\<lparr>
     nuGrid := map (\<lambda>(v, w). [0, v, w]) (zip
       [1000, 5, 4, 1000, 99, 4, 1000, 6, 4,
        1000, 99, 4, 99, 377 / 125, 99, 1000, 99, 4,
        1000, 5, 4, 1000, 14, 4, 1000, 6, 4]
       [2, 2, 2, 2, 98, 2, 2, 2, 2,
        2, 98, 2, 98, 3, 98, 2, 98, 2,
        2, 2, 2, 2, 57, 2, 2, 2, 2]),
     nuPrev := [map (\<lambda>v. 42) ex_column, ex_column, map (\<lambda>v. 2) ex_column],
     nuBS := [0, 15 / 2, 59 / 2],
     nuS := [[0], [377 / 125], [3]], nuR := [[0], [0], [0]],
     xbcm := 50, xbcp := 50, ybcm := 50, ybcp := 50, zbcm := 50, zbcp := 50 \<rparr>"

section \<open>Arrays and loops\<close>

lemma rd_Some_iff: "rd xs i = Some v \<longleftrightarrow> 0 \<le> i \<and> i < int (length xs) \<and> xs ! nat i = v"
  by (auto simp: rd_def)

lemma rd_wr: "wr xs i v = Some ys \<Longrightarrow> rd ys j = (if j = i then Some v else rd xs j)"
  by (auto simp: rd_def wr_def split: if_splits)

lemma length_wr: "wr xs i v = Some ys \<Longrightarrow> length ys = length xs"
  by (auto simp: wr_def split: if_splits)

lemma wr2_SomeD:
  assumes "wr2 xss i j v = Some yss"
  obtains xs xs' where "rd xss i = Some xs" "wr xs j v = Some xs'" "wr xss i xs' = Some yss"
  using assms by (auto simp: wr2_def split: option.splits)

lemma rd2_wr2:
  assumes "wr2 xss i j v = Some yss"
  shows "rd2 yss k l = (if k = i \<and> l = j then Some v else rd2 xss k l)"
proof -
  from assms obtain xs xs' where
    a: "rd xss i = Some xs" and b: "wr xs j v = Some xs'" and c: "wr xss i xs' = Some yss"
    by (rule wr2_SomeD)
  have 1: "rd yss k = (if k = i then Some xs' else rd xss k)"
    by (rule rd_wr[OF c])
  have 2: "rd xs' l = (if l = j then Some v else rd xs l)"
    by (rule rd_wr[OF b])
  show ?thesis
  proof (cases "k = i")
    case True
    then show ?thesis unfolding rd2_def 1 using 2 a by simp
  next
    case False
    then show ?thesis unfolding rd2_def 1 by simp
  qed
qed

lemma rd_wr2_other:
  assumes "wr2 xss i j v = Some yss" and "k \<noteq> i"
  shows "rd yss k = rd xss k"
proof -
  from assms(1) obtain xs xs' where c: "wr xss i xs' = Some yss"
    by (rule wr2_SomeD)
  show ?thesis using rd_wr[OF c, of k] assms(2) by simp
qed

lemma length_wr2: "wr2 xss i j v = Some yss \<Longrightarrow> length yss = length xss"
  by (erule wr2_SomeD) (simp add: length_wr)

lemma for_loop_append:
  "for_loop (ks @ ls) body a =
     (case for_loop ks body a of None \<Rightarrow> None | Some b \<Rightarrow> for_loop ls body b)"
  by (induction ks arbitrary: a) (auto split: option.splits)

lemma for_loop_preserves:
  assumes "for_loop ks body a = Some b"
    and "P a"
    and "\<And>k x y. k \<in> set ks \<Longrightarrow> body k x = Some y \<Longrightarrow> P x \<Longrightarrow> P y"
  shows "P b"
  using assms
proof (induction ks arbitrary: a)
  case Nil
  then show ?case by simp
next
  case (Cons k ks)
  from Cons.prems(1) obtain a' where step: "body k a = Some a'" and rest: "for_loop ks body a' = Some b"
    by (auto split: option.splits)
  have "P a'" using Cons.prems(3)[OF _ step Cons.prems(2)] by simp
  show ?case
  proof (rule Cons.IH[OF rest \<open>P a'\<close>])
    fix k' x y
    assume "k' \<in> set ks" "body k' x = Some y" "P x"
    then show "P y" using Cons.prems(3)[of k' x y] by simp
  qed
qed

text \<open>A property that the body establishes at index \<open>k\<close> and no other iteration destroys
  holds after the loop.\<close>

lemma for_loop_establishes:
  assumes "for_loop ks body a = Some b"
    and "k \<in> set ks"
    and "\<And>x y. body k x = Some y \<Longrightarrow> Q y"
    and "\<And>j x y. j \<in> set ks \<Longrightarrow> body j x = Some y \<Longrightarrow> Q x \<Longrightarrow> Q y"
  shows "Q b"
  using assms
proof (induction ks arbitrary: a)
  case Nil
  then show ?case by simp
next
  case (Cons j ks)
  from Cons.prems(1) obtain a' where step: "body j a = Some a'" and rest: "for_loop ks body a' = Some b"
    by (auto split: option.splits)
  show ?case
  proof (cases "k \<in> set ks")
    case True
    show ?thesis
    proof (rule Cons.IH[OF rest True])
      fix x y assume "body k x = Some y"
      then show "Q y" by (rule Cons.prems(3))
    next
      fix j' x y
      assume "j' \<in> set ks" "body j' x = Some y" "Q x"
      then show "Q y" using Cons.prems(4)[of j' x y] by simp
    qed
  next
    case False
    then have "j = k" using Cons.prems(2) by simp
    then have "Q a'" using Cons.prems(3) step by simp
    show ?thesis
    proof (rule for_loop_preserves[where P = Q, OF rest \<open>Q a'\<close>])
      fix j' x y
      assume "j' \<in> set ks" "body j' x = Some y" "Q x"
      then show "Q y" using Cons.prems(4)[of j' x y] by simp
    qed
  qed
qed

section \<open>The boundary computation\<close>

lemma beyond_and_true_Some:
  "beyond_and_true b gh nb = Some t \<longleftrightarrow> (if b then rd gh nb = Some (\<not> t) else \<not> t)"
  by (auto simp: beyond_and_true_def)

lemma bc_low_face_other:
  "flag \<notin> {0, 1, 2, 3, 4} \<Longrightarrow> bc_low_face flag np v prev per adj b = Some v"
  by (simp add: bc_low_face_def)

lemma bc_high_face_other:
  "flag \<notin> {0, 1, 2, 3, 4} \<Longrightarrow> bc_high_face flag np v prev per adj b = Some v"
  by (simp add: bc_high_face_def)

lemma bc_value_db:
  assumes "zbcflag c = 5"
    and "rd (xGrid c) grid = Some (x, y, z)"
    and "z < zlo c \<or> z > zhi c"
    and "rd (ghost s) (grid - 1) \<noteq> Some False"
    and "rd (ghost s) (grid + 1) \<noteq> Some False"
    and "rd (ghost s) (grid - nX c) \<noteq> Some False"
    and "rd (ghost s) (grid + nX c) \<noteq> Some False"
    and "bc_value c s v prev grid bulk = Some w"
  shows "w = v"
  using assms(8) assms(1,3-7)
  unfolding bc_value_def Let_def
  by (auto simp: bind_eq_Some_conv assms(2) beyond_and_true_Some bc_low_face_other
        bc_high_face_other split: if_splits)

lemma floor_conc_pos: "floor_conc > 0"
  by (simp add: floor_conc_def)

lemma bc_low_face_dirichlet:
  "flag = 1 \<or> flag = 4 \<Longrightarrow>
   bc_low_face flag np v prev per adj b = map_option (\<lambda>p. 2 * b - p) (rd prev adj)"
  by (auto simp: bc_low_face_def)

lemma bc_high_face_dirichlet:
  "flag = 1 \<or> flag = 2 \<Longrightarrow>
   bc_high_face flag np v prev per adj b = map_option (\<lambda>p. 2 * b - p) (rd prev adj)"
  by (auto simp: bc_high_face_def)

lemma bc_value_face:
  assumes "bc_face c s grid = Some f"
    and "bc_value c s v prev grid bulk = Some w"
  shows "(case f of
            ZLow \<Rightarrow> bc_low_face (zbcflag c) (nprocs c) v prev (grid + nX c * nY c * nz c)
                      (adjacent c grid ZLow) (zbcm s)
          | ZHigh \<Rightarrow> bc_high_face (zbcflag c) (nprocs c) v prev (grid - nX c * nY c * nz c)
                      (adjacent c grid ZHigh) bulk
          | YLow \<Rightarrow> bc_low_face (ybcflag c) (nprocs c) v prev (grid + nX c * ny c)
                      (adjacent c grid YLow) (ybcm s)
          | YHigh \<Rightarrow> bc_high_face (ybcflag c) (nprocs c) v prev (grid - nX c * ny c)
                      (adjacent c grid YHigh) (ybcp s)
          | XLow \<Rightarrow> bc_low_face (xbcflag c) (nprocs c) v prev (grid + nx c)
                      (adjacent c grid XLow) (xbcm s)
          | XHigh \<Rightarrow> bc_high_face (xbcflag c) (nprocs c) v prev (grid - nx c)
                      (adjacent c grid XHigh) (xbcp s)) = Some w"
proof -
  from assms(1) obtain x y z where xyz: "rd (xGrid c) grid = Some (x, y, z)"
    and f: "find (qualifies c s grid (x, y, z)) [ZLow, ZHigh, YLow, YHigh, XLow, XHigh] = Some f"
    by (auto simp: bc_face_def split: option.splits)
  show ?thesis
    using assms(2) f
    unfolding bc_value_def Let_def
    by (auto simp: bind_eq_Some_conv xyz beyond_and_true_Some qualifies_def beyond_def
          adjacent_def true_cell_def split: if_splits)
qed

lemmas ex_defs = ex_cfg_def ex_state_def ex_column_def

lemmas bc_defs = compute_bc_def bc_value_def beyond_and_true_def bc_low_face_def
  bc_high_face_def bc_face_def qualifies_def beyond_def adjacent_def true_cell_def
  dirichlet_on_def face_value_def rd_def

text \<open>
  \<^bold>\<open>C7.\<close> Initialisation should end with "Grid is not cubic" whenever two of the three
  cell sizes differ by more than \<open>1e-10\<close>. \<^verbatim>\<open>isEuqal\<close> compares only its first two
  arguments, three times over: a box of 1 x 1 x 2 with one cell per axis has cell sizes
  1, 1 and 2 and passes the check.
\<close>

theorem init_steps_accepts_unequal_stepz:
  "init_steps 0 1 0 1 0 2 1 1 1 = Inr (1, 1, 2)"
  by (simp add: init_steps_def isEuqal_def)

text \<open>
  The Dirichlet branches of \<^verbatim>\<open>compute_bc\<close>. Let a ghost cell qualify for a face (its centre
  lies beyond the face, its neighbour across the face is a true cell, and no earlier face
  in the order z-low, z-high, y-low, y-high, x-low, x-high qualifies), and let the kind of
  that axis be Dirichlet on that face. Then \<^verbatim>\<open>compute_bc\<close> reads the neighbour's previous
  value \<open>p\<close> and writes \<open>2 * b - p\<close>, or \<open>1e-20\<close> when that is not positive, where \<open>b\<close> is the
  member that holds the face value at the time of the call, and the bulk concentration
  passed to the call on the z-high face.
\<close>

lemma compute_bc_dirichlet:
  assumes "bc_face c s grid = Some f"
    and "dirichlet_on c f"
    and "compute_bc c s nuCell prev grid bulk = Some v"
  shows "\<exists>p. rd prev (adjacent c grid f) = Some p
           \<and> v = (if 2 * face_value s bulk f - p \<le> 0 then floor_conc
                  else 2 * face_value s bulk f - p)"
proof -
  from assms(3) obtain w where w: "bc_value c s nuCell prev grid bulk = Some w"
    and v: "v = (if w \<le> 0 then floor_conc else w)"
    by (auto simp: compute_bc_def bind_eq_Some_conv)
  have "map_option (\<lambda>p. 2 * face_value s bulk f - p) (rd prev (adjacent c grid f)) = Some w"
    using bc_value_face[OF assms(1) w] assms(2)
    by (cases f) (simp_all add: dirichlet_on_def face_value_def bc_low_face_dirichlet
        bc_high_face_dirichlet)
  then show ?thesis using v by auto
qed

text \<open>On the small grid, cell 22 lies above the true cell 13: the z-high face, with bulk
  value 7 and previous value 1 below, gets \<open>2 * 7 - 1 = 13\<close>.\<close>

lemma compute_bc_dirichlet_example:
  "bc_face ex_cfg ex_state 22 = Some ZHigh \<and> dirichlet_on ex_cfg ZHigh
   \<and> compute_bc ex_cfg ex_state 7 ex_column 22 7 = Some 13
   \<and> (\<exists>p. rd ex_column (adjacent ex_cfg 22 ZHigh) = Some p
           \<and> (13::real) = (if 2 * face_value ex_state 7 ZHigh - p \<le> 0 then floor_conc
                  else 2 * face_value ex_state 7 ZHigh - p))"
proof -
  have a: "bc_face ex_cfg ex_state 22 = Some ZHigh"
    by (simp add: bc_defs ex_defs)
  have b: "dirichlet_on ex_cfg ZHigh"
    by (simp add: bc_defs ex_defs)
  have c: "compute_bc ex_cfg ex_state 7 ex_column 22 7 = Some 13"
    by (simp add: bc_defs ex_defs)
  show ?thesis
    using compute_bc_dirichlet[OF a b c] a b c by simp
qed

text \<open>Cell 4 lies below the true cell 13, on the z-low face, which is Dirichlet with the
  prescribed value 0; the previous value above is 1. The claimed ghost value is
  \<open>2 * 0 - 1 = -1\<close>; the value written is \<open>1e-20\<close>.\<close>

lemma compute_bc_dirichlet_clamped:
  "bc_face ex_cfg ex_state 4 = Some ZLow \<and> dirichlet_on ex_cfg ZLow
   \<and> face_value ex_state 7 ZLow = 0
   \<and> rd ex_column (adjacent ex_cfg 4 ZLow) = Some 1
   \<and> compute_bc ex_cfg ex_state 0 ex_column 4 7 = Some floor_conc
   \<and> floor_conc \<noteq> 2 * 0 - 1"
  by (simp add: bc_defs ex_defs floor_conc_def)

text \<open>
  \<^bold>\<open>C9.\<close> With the z axis of kind \<open>db\<close> (\<open>zbcflag = 5\<close>), \<^verbatim>\<open>compute_bc\<close> applies no update
  formula to a ghost cell of a z face: for a cell whose centre lies below \<open>zlo\<close> or above
  \<open>zhi\<close> and whose four neighbours in its own layer are not true cells (they lie beyond
  the same face), the value written back is the stored value, except that a non-positive
  value becomes \<open>1e-20\<close>. A further call, with any snapshot and any bulk value, returns
  that value again, so the cell keeps it over the iterations.
\<close>

theorem compute_bc_db_keeps_z_face:
  assumes "zbcflag c = 5"
    and "rd (xGrid c) grid = Some (x, y, z)"
    and "z < zlo c \<or> z > zhi c"
    and "\<not> true_cell s (grid - 1)" and "\<not> true_cell s (grid + 1)"
    and "\<not> true_cell s (grid - nX c)" and "\<not> true_cell s (grid + nX c)"
    and "compute_bc c s v prev grid bulk = Some v'"
  shows "v' = (if v \<le> 0 then floor_conc else v)
         \<and> (\<forall>prev' bulk' v''. compute_bc c s v' prev' grid bulk' = Some v'' \<longrightarrow> v'' = v')"
proof -
  have keep: "u' = (if u \<le> 0 then floor_conc else u)"
    if "compute_bc c s u p grid b = Some u'" for u u' p b
  proof -
    from that obtain w where w: "bc_value c s u p grid b = Some w"
      and u': "u' = (if w \<le> 0 then floor_conc else w)"
      by (auto simp: compute_bc_def bind_eq_Some_conv)
    have "w = u"
      using assms(1-7) w unfolding true_cell_def by (rule bc_value_db)
    then show ?thesis using u' by simp
  qed
  have 1: "v' = (if v \<le> 0 then floor_conc else v)"
    using assms(8) by (rule keep)
  then have "v' > 0" using floor_conc_pos by (simp split: if_splits)
  then have "v'' = v'" if "compute_bc c s v' p grid b = Some v''" for p b v''
    using keep[OF that] by simp
  then show ?thesis using 1 by blast
qed

text \<open>On the small grid with the z axis set to \<open>db\<close>, cell 4 holds 0 and is set to
  \<open>1e-20\<close>, and stays there.\<close>

theorem compute_bc_db_keeps_z_face_witness:
  "zbcflag (ex_cfg\<lparr>zbcflag := 5\<rparr>) = 5
   \<and> \<not> true_cell ex_state (4 - 1) \<and> \<not> true_cell ex_state (4 + 1)
   \<and> \<not> true_cell ex_state (4 - nX ex_cfg) \<and> \<not> true_cell ex_state (4 + nX ex_cfg)
   \<and> compute_bc (ex_cfg\<lparr>zbcflag := 5\<rparr>) ex_state 0 ex_column 4 7 = Some floor_conc
   \<and> compute_bc (ex_cfg\<lparr>zbcflag := 5\<rparr>) ex_state floor_conc ex_column 4 7 = Some floor_conc"
proof -
  let ?c = "ex_cfg\<lparr>zbcflag := 5\<rparr>"
  have a: "zbcflag ?c = 5" by simp
  have b: "rd (xGrid ?c) 4 = Some (1 / 2, 1 / 2, - 1 / 2)"
    by (simp add: ex_defs rd_def)
  have c: "- 1 / 2 < zlo ?c \<or> - 1 / 2 > zhi ?c"
    by (simp add: ex_defs)
  have d: "\<not> true_cell ex_state (4 - 1)" "\<not> true_cell ex_state (4 + 1)"
    "\<not> true_cell ex_state (4 - nX ?c)" "\<not> true_cell ex_state (4 + nX ?c)"
    by (simp_all add: ex_defs true_cell_def rd_def)
  have e: "compute_bc ?c ex_state 0 ex_column 4 7 = Some floor_conc"
    by (simp add: bc_defs ex_defs)
  have f: "compute_bc ?c ex_state floor_conc ex_column 4 7 = Some floor_conc"
    by (simp add: bc_defs ex_defs floor_conc_def)
  show ?thesis
    using compute_bc_db_keeps_z_face[OF a b c d e] d e f by simp
qed

text \<open>The effect of a loop at one index \<open>k\<close>: what holds before the iteration for \<open>k\<close> is
  kept by the other iterations, the iteration for \<open>k\<close> turns it into \<open>Q\<close>, and the other
  iterations keep \<open>Q\<close>.\<close>

lemma for_loop_at:
  assumes run: "for_loop ks body a = Some b"
    and dist: "distinct ks"
    and k: "k \<in> set ks"
    and P: "P a"
    and keepP: "\<And>j x y. j \<in> set ks \<Longrightarrow> j \<noteq> k \<Longrightarrow> body j x = Some y \<Longrightarrow> P x \<Longrightarrow> P y"
    and step: "\<And>x y. body k x = Some y \<Longrightarrow> P x \<Longrightarrow> Q y"
    and keepQ: "\<And>j x y. j \<in> set ks \<Longrightarrow> j \<noteq> k \<Longrightarrow> body j x = Some y \<Longrightarrow> Q x \<Longrightarrow> Q y"
  shows "Q b"
proof -
  from k obtain pre post where ks: "ks = pre @ k # post"
    by (auto dest: split_list)
  with dist have notin: "k \<notin> set pre" "k \<notin> set post"
    by auto
  from run obtain a1 a2 where r1: "for_loop pre body a = Some a1"
    and r2: "body k a1 = Some a2" and r3: "for_loop post body a2 = Some b"
    unfolding ks for_loop_append by (auto split: option.splits)
  have "P a1"
  proof (rule for_loop_preserves[where P = P, OF r1 P])
    fix j x y assume "j \<in> set pre" "body j x = Some y" "P x"
    then show "P y" using keepP[of j x y] notin ks by auto
  qed
  then have "Q a2" using step[OF r2] by simp
  show ?thesis
  proof (rule for_loop_preserves[where P = Q, OF r3 \<open>Q a2\<close>])
    fix j x y assume "j \<in> set post" "body j x = Some y" "Q x"
    then show "Q y" using keepQ[of j x y] notin ks by auto
  qed
qed

lemma update_atom_frame:
  assumes "update_atom m j a = Some a'"
  shows "a_mask a' = a_mask a" and "a_x a' = a_x a" and "a_nlocal a' = a_nlocal a"
    and "i \<noteq> int j \<Longrightarrow> rd (a_rmass a') i = rd (a_rmass a) i"
    and "i \<noteq> int j \<Longrightarrow> rd (a_radius a') i = rd (a_radius a) i"
proof -
  show "a_mask a' = a_mask a" "a_x a' = a_x a" "a_nlocal a' = a_nlocal a"
    using assms unfolding update_atom_def Let_def
    by (auto simp: bind_eq_Some_conv split: if_splits)
  have "rd (a_rmass a') i = rd (a_rmass a) i \<and> rd (a_radius a') i = rd (a_radius a) i"
    if "i \<noteq> int j"
    using assms that unfolding update_atom_def Let_def
    by (auto simp: bind_eq_Some_conv rd_wr split: if_splits)
  then show "i \<noteq> int j \<Longrightarrow> rd (a_rmass a') i = rd (a_rmass a) i"
    and "i \<noteq> int j \<Longrightarrow> rd (a_radius a') i = rd (a_radius a) i"
    by simp_all
qed

lemma update_atom_at:
  assumes "update_atom m j a = Some a'"
    and "rd (a_mask a) (int j) = Some mk" and "mk AND m_groupbit m \<noteq> 0"
  shows "\<exists>xi mass r plane g.
           rd (a_x a) (int j) = Some xi \<and> rd (a_rmass a) (int j) = Some mass
           \<and> rd (a_radius a) (int j) = Some r
           \<and> rd2 (m_growth m) (m_igroup m) (m_cell m xi) = Some plane \<and> rd plane 0 = Some g
           \<and> rd (a_rmass a') (int j) = Some (mass * (1 + g * m_dt m))
           \<and> rd (a_radius a') (int j) =
               Some ((3 / (4 * pi) * (mass * (1 + g * m_dt m) / (mass / (4 * pi / 3 * r * r * r))))
                     powr (1 / 3))"
proof -
  from assms obtain xi mass r plane g rmass' radius' om' or' where
    rds: "rd (a_x a) (int j) = Some xi" "rd (a_rmass a) (int j) = Some mass"
      "rd (a_radius a) (int j) = Some r"
      "rd2 (m_growth m) (m_igroup m) (m_cell m xi) = Some plane" "rd plane 0 = Some g"
    and w1: "wr (a_rmass a) (int j) (mass * (1 + g * m_dt m)) = Some rmass'"
    and w2: "wr (a_radius a) (int j)
               ((3 / (4 * pi) * (mass * (1 + g * m_dt m) / (mass / (4 * pi / 3 * r * r * r))))
                 powr (1 / 3)) = Some radius'"
    and a': "a' = a\<lparr>a_rmass := rmass', a_radius := radius', a_outer_mass := om',
                     a_outer_radius := or'\<rparr>"
    unfolding update_atom_def Let_def
    by (simp add: bind_eq_Some_conv) blast
  have "rd (a_rmass a') (int j) = Some (mass * (1 + g * m_dt m))"
    using rd_wr[OF w1, of "int j"] a' by simp
  moreover have "rd (a_radius a') (int j) =
      Some ((3 / (4 * pi) * (mass * (1 + g * m_dt m) / (mass / (4 * pi / 3 * r * r * r))))
            powr (1 / 3))"
    using rd_wr[OF w2, of "int j"] a' by simp
  ultimately show ?thesis using rds by blast
qed

text \<open>
  \<^bold>\<open>C8.\<close> For every particle \<open>j\<close> of the coupled group (\<open>mask[j] & groupbit\<close> is not zero),
  \<^verbatim>\<open>update_atoms\<close> multiplies the mass by \<open>1 + g * dt\<close>, where \<open>g\<close> is the growth rate
  \<open>growth[igroup][cell][0]\<close> of the grid cell that contains the particle's centre, and
  sets the radius to \<open>(3 * mass' / (4 * pi * density)) ^ (1/3)\<close>, where \<open>mass'\<close> is the
  new mass and \<open>density\<close> is the old mass divided by the volume of the old sphere.
\<close>

theorem update_atoms_growth:
  assumes run: "update_atoms m a = Some a'"
    and j: "j < nat (a_nlocal a)"
    and mask: "rd (a_mask a) (int j) = Some mk" "mk AND m_groupbit m \<noteq> 0"
  shows "\<exists>xi mass r plane g density.
           rd (a_x a) (int j) = Some xi \<and> rd (a_rmass a) (int j) = Some mass
           \<and> rd (a_radius a) (int j) = Some r
           \<and> rd2 (m_growth m) (m_igroup m) (m_cell m xi) = Some plane \<and> rd plane 0 = Some g
           \<and> density = mass / (4 * pi / 3 * r * r * r)
           \<and> rd (a_rmass a') (int j) = Some (mass * (1 + g * m_dt m))
           \<and> rd (a_radius a') (int j) =
               Some ((3 * (mass * (1 + g * m_dt m)) / (4 * pi * density)) powr (1 / 3))"
proof -
  define P where "P x \<longleftrightarrow> a_mask x = a_mask a \<and> a_x x = a_x a
      \<and> rd (a_rmass x) (int j) = rd (a_rmass a) (int j)
      \<and> rd (a_radius x) (int j) = rd (a_radius a) (int j)" for x :: atoms
  define Q where "Q y \<longleftrightarrow> (\<exists>xi mass r plane g.
           rd (a_x a) (int j) = Some xi \<and> rd (a_rmass a) (int j) = Some mass
           \<and> rd (a_radius a) (int j) = Some r
           \<and> rd2 (m_growth m) (m_igroup m) (m_cell m xi) = Some plane \<and> rd plane 0 = Some g
           \<and> rd (a_rmass y) (int j) = Some (mass * (1 + g * m_dt m))
           \<and> rd (a_radius y) (int j) =
               Some ((3 / (4 * pi) * (mass * (1 + g * m_dt m) / (mass / (4 * pi / 3 * r * r * r))))
                     powr (1 / 3)))" for y :: atoms
  have "Q a'"
  proof (rule for_loop_at[where P = P and Q = Q and k = j,
        OF run[unfolded update_atoms_def]])
    show "distinct [0..<nat (a_nlocal a)]" by simp
    show "j \<in> set [0..<nat (a_nlocal a)]" using j by simp
    show "P a" by (simp add: P_def)
  next
    fix i x y
    assume "i \<noteq> j" and step: "update_atom m i x = Some y" and "P x"
    then show "P y"
      using update_atom_frame(1,2)[OF step] update_atom_frame(4,5)[OF step, of "int j"]
      by (simp add: P_def)
  next
    fix x y
    assume step: "update_atom m j x = Some y" and "P x"
    then show "Q y"
      using update_atom_at[OF step, of mk] mask by (simp add: P_def Q_def)
  next
    fix i x y
    assume "i \<noteq> j" and step: "update_atom m i x = Some y" and "Q x"
    then show "Q y"
      using update_atom_frame(4,5)[OF step, of "int j"] by (simp add: Q_def)
  qed
  then obtain xi mass r plane g where
    *: "rd (a_x a) (int j) = Some xi" "rd (a_rmass a) (int j) = Some mass"
      "rd (a_radius a) (int j) = Some r"
      "rd2 (m_growth m) (m_igroup m) (m_cell m xi) = Some plane" "rd plane 0 = Some g"
      "rd (a_rmass a') (int j) = Some (mass * (1 + g * m_dt m))"
      "rd (a_radius a') (int j) =
         Some ((3 / (4 * pi) * (mass * (1 + g * m_dt m) / (mass / (4 * pi / 3 * r * r * r))))
               powr (1 / 3))"
    unfolding Q_def by blast
  have "3 / (4 * pi) * (mass * (1 + g * m_dt m) / (mass / (4 * pi / 3 * r * r * r)))
        = 3 * (mass * (1 + g * m_dt m)) / (4 * pi * (mass / (4 * pi / 3 * r * r * r)))"
    by simp
  with * show ?thesis by force
qed

text \<open>The first particle of the example grows from mass 2 to mass 3 and from radius 1 to
  radius \<open>(3/2) ^ (1/3)\<close>.\<close>

theorem update_atoms_growth_witness:
  "update_atoms ex_monod ex_atoms =
     Some (ex_atoms\<lparr>a_rmass := [3, 2], a_radius := [(3 / 2) powr (1 / 3), 1],
       a_outer_mass := [0, 0], a_outer_radius := [(3 / 2) powr (1 / 3), 1]\<rparr>)
   \<and> (0::nat) < nat (a_nlocal ex_atoms)
   \<and> rd (a_mask ex_atoms) (int 0) = Some 1 \<and> (1 :: 32 word) AND m_groupbit ex_monod \<noteq> 0
   \<and> (\<exists>xi mass r plane g density.
           rd (a_x ex_atoms) (int 0) = Some xi \<and> rd (a_rmass ex_atoms) (int 0) = Some mass
           \<and> rd (a_radius ex_atoms) (int 0) = Some r
           \<and> rd2 (m_growth ex_monod) (m_igroup ex_monod) (m_cell ex_monod xi) = Some plane
           \<and> rd plane 0 = Some g
           \<and> density = mass / (4 * pi / 3 * r * r * r)
           \<and> rd [3, 2] (int 0) = Some (mass * (1 + g * m_dt ex_monod))
           \<and> rd [(3 / 2) powr (1 / 3), 1] (int 0) =
               Some ((3 * (mass * (1 + g * m_dt ex_monod)) / (4 * pi * density)) powr (1 / 3)))"
proof -
  have a: "update_atoms ex_monod ex_atoms =
     Some (ex_atoms\<lparr>a_rmass := [3, 2], a_radius := [(3 / 2) powr (1 / 3), 1],
       a_outer_mass := [0, 0], a_outer_radius := [(3 / 2) powr (1 / 3), 1]\<rparr>)"
    by (simp add: update_atoms_def update_atom_def ex_atoms_def ex_monod_def rd_def wr_def
        rd2_def numeral_2_eq_2 Let_def)
  have b: "(0::nat) < nat (a_nlocal ex_atoms)"
    by (simp add: ex_atoms_def)
  have c: "rd (a_mask ex_atoms) (int 0) = Some 1"
    by (simp add: ex_atoms_def rd_def)
  have d: "(1 :: 32 word) AND m_groupbit ex_monod \<noteq> 0"
    by (simp add: ex_monod_def)
  show ?thesis
    using update_atoms_growth[OF a b c d] a b c d by simp
qed

section \<open>The convergence loop\<close>

lemma check_conv_eq:
  "\<forall>i \<in> set is. i < length nc \<Longrightarrow> check_conv is nc = Some (\<forall>i \<in> set is. nc ! i)"
  by (induction "is") (auto simp: rd_def)

text \<open>The flags after the forcing loop over the indices \<open>is\<close>, and the names it prints.\<close>

lemma force_loop_eq:
  assumes "distinct is" and "\<forall>i \<in> set is. i < length nc \<and> i < length names"
  shows "for_loop is
           (\<lambda>i (nc, out). do {
              b \<leftarrow> rd nc (int i);
              if \<not> b then do {
                nc' \<leftarrow> wr nc (int i) True;
                name \<leftarrow> rd names (int i);
                Some (nc', out @ [Forced name])
              } else Some (nc, out)
            }) (nc, out)
         = Some (map (\<lambda>j. nc ! j \<or> j \<in> set is) [0..<length nc],
                 out @ map Forced (map (\<lambda>i. names ! i) (filter (\<lambda>i. \<not> nc ! i) is)))"
  using assms
proof (induction "is" arbitrary: nc out)
  case Nil
  then show ?case by (simp add: map_nth)
next
  case (Cons i "is")
  let ?nc1 = "if nc ! i then nc else nc[i := True]"
  have len: "length ?nc1 = length nc" by simp
  have nth: "?nc1 ! j = (nc ! j \<or> j = i)" if "j < length nc" for j
    using that Cons.prems(2) by (auto simp: nth_list_update)
  have filt: "filter (\<lambda>j. \<not> ?nc1 ! j) is = filter (\<lambda>j. \<not> nc ! j) is"
    using Cons.prems by (intro filter_cong) (auto simp: nth_list_update)
  have map_eq: "map (\<lambda>j. ?nc1 ! j \<or> j \<in> set is) [0..<length ?nc1]
      = map (\<lambda>j. nc ! j \<or> j \<in> set (i # is)) [0..<length nc]"
    unfolding len using nth by (intro map_cong) auto
  have IH: "for_loop is
           (\<lambda>i (nc, out). do {
              b \<leftarrow> rd nc (int i);
              if \<not> b then do {
                nc' \<leftarrow> wr nc (int i) True;
                name \<leftarrow> rd names (int i);
                Some (nc', out @ [Forced name])
              } else Some (nc, out)
            }) (?nc1, out')
         = Some (map (\<lambda>j. ?nc1 ! j \<or> j \<in> set is) [0..<length ?nc1],
                 out' @ map Forced (map (\<lambda>i. names ! i) (filter (\<lambda>i. \<not> ?nc1 ! i) is)))" for out'
    by (rule Cons.IH) (use Cons.prems in auto)
  show ?case
  proof (cases "nc ! i")
    case True
    then show ?thesis
      using IH[of out] Cons.prems(2) unfolding filt map_eq
      by (simp add: rd_def)
  next
    case False
    then show ?thesis
      using IH[of "out @ [Forced (names ! i)]"] Cons.prems(2) unfolding filt map_eq
      by (simp add: rd_def wr_def)
  qed
qed

lemma force_conv_eq:
  assumes "kin_nnus k < length nc" and "kin_nnus k < length (kin_nuName k)"
  shows "force_conv k (nc, out)
         = Some (map (\<lambda>j. nc ! j \<or> (1 \<le> j \<and> j \<le> kin_nnus k)) [0..<length nc],
                 out @ map Forced (map (\<lambda>i. kin_nuName k ! i)
                         (filter (\<lambda>i. \<not> nc ! i) [1..<kin_nnus k + 1])))"
proof -
  have s: "(\<lambda>j. nc ! j \<or> j \<in> set [1..<kin_nnus k + 1])
           = (\<lambda>j. nc ! j \<or> (1 \<le> j \<and> j \<le> kin_nnus k))"
    by (rule ext) (auto simp del: upt_Suc)
  have "force_conv k (nc, out)
         = Some (map (\<lambda>j. nc ! j \<or> j \<in> set [1..<kin_nnus k + 1]) [0..<length nc],
                 out @ map Forced (map (\<lambda>i. kin_nuName k ! i)
                         (filter (\<lambda>i. \<not> nc ! i) [1..<kin_nnus k + 1])))"
    unfolding force_conv_def
    by (rule force_loop_eq) (use assms in \<open>auto simp del: upt_Suc\<close>)
  then show ?thesis unfolding s .
qed

lemma init_nuConv_length:
  assumes "init_nuConv k nc = Some nc'"
  shows "length nc' = length nc"
  using assms unfolding init_nuConv_def
  by (rule for_loop_preserves[where P = "\<lambda>x. length x = length nc"])
     (auto simp: bind_eq_Some_conv length_wr split: if_splits)

lemma init_nuConv_returns:
  assumes "kin_nnus k < length nc" and "kin_nnus k < length (kin_nuName k)"
  shows "\<exists>nc'. init_nuConv k nc = Some nc'"
proof -
  have "\<exists>nc'. for_loop is
       (\<lambda>i nc. do {
          name \<leftarrow> rd (kin_nuName k) (int i);
          if name = ''h2o'' then wr nc (int i) True
          else if name = ''h'' then wr nc (int i) True
          else wr nc (int i) False
        }) nc = Some nc'"
    if "\<forall>i \<in> set is. i < length nc \<and> i < length (kin_nuName k)" for "is"
    using that
  proof (induction "is" arbitrary: nc)
    case Nil
    then show ?case by simp
  next
    case (Cons i "is")
    show ?case
      using Cons.prems Cons.IH[of "nc[i := True]"] Cons.IH[of "nc[i := False]"]
      by (simp add: rd_def wr_def)
  qed
  then show ?thesis unfolding init_nuConv_def using assms by (simp del: upt_Suc)
qed

text \<open>One pass of the loop body with the stepper present: the head of the loop at counter
  \<open>n\<close> in terms of the stepper's answer.\<close>

lemma integration_loop_unfold:
  assumes "stepper env = Some d"
    and "d nc (n + 1) (kin_diffT k) (before_stepper env k st) = Some (s', nc')"
    and "kin_nnus k < length nc'"
  shows "integration_loop env k n nc st out =
           (if n + 1 > 10000 then
              (case force_conv k (nc', out) of
                 None \<Rightarrow> None
               | Some (nc'', out') \<Rightarrow> Some (n + 1, nc'', s', out'))
            else if (\<forall>i \<in> {1..kin_nnus k}. nc' ! i) then Some (n + 1, nc', s', out)
            else integration_loop env k (n + 1) nc' s' out)"
proof -
  have cc: "check_conv [1..<kin_nnus k + 1] nc' = Some (\<forall>i \<in> {1..kin_nnus k}. nc' ! i)"
  proof -
    have "check_conv [1..<kin_nnus k + 1] nc' = Some (\<forall>i \<in> set [1..<kin_nnus k + 1]. nc' ! i)"
      by (rule check_conv_eq) (use assms(3) in \<open>auto simp del: upt_Suc\<close>)
    moreover have "set [1..<kin_nnus k + 1] = {1..kin_nnus k}"
      by (auto simp del: upt_Suc)
    ultimately show ?thesis by (simp del: upt_Suc)
  qed
  show ?thesis
    apply (subst integration_loop.simps)
    apply (simp only: Let_def assms(1) option.case assms(2) prod.case cc)
    done
qed


lemma integration_loop_result:
  assumes st: "stepper env = Some d"
    and total: "\<And>nc it s. \<exists>s' nc'. d nc it (kin_diffT k) s = Some (s', nc') \<and> length nc' = length nc"
    and names: "kin_nnus k < length (kin_nuName k)"
    and len: "kin_nnus k < length nc"
    and n: "n \<le> 10000"
  shows "\<exists>it nc' st' out'.
           integration_loop env k n nc st out = Some (it, nc', st', out')
           \<and> n < it \<and> it \<le> 10001
           \<and> (\<forall>i \<in> {1..kin_nnus k}. nc' ! i)
           \<and> (it \<le> 10000 \<longrightarrow>
                 out' = out \<and> (\<exists>nc0 s0. d nc0 it (kin_diffT k) s0 = Some (st', nc')))
           \<and> (it = 10001 \<longrightarrow>
                 (\<exists>nc0 s0 ncl. d nc0 10001 (kin_diffT k) s0 = Some (st', ncl)
                    \<and> nc' = map (\<lambda>j. ncl ! j \<or> (1 \<le> j \<and> j \<le> kin_nnus k)) [0..<length ncl]
                    \<and> out' = out @ map Forced (map (\<lambda>i. kin_nuName k ! i)
                                  (filter (\<lambda>i. \<not> ncl ! i) [1..<kin_nnus k + 1]))))"
  using len n
proof (induction "nat (10000 - n)" arbitrary: n nc st out)
  case 0
  then have n: "n = 10000" by simp
  define s3 where "s3 = before_stepper env k st"
  from total[of nc "n + 1" s3] obtain s' ncl where
    d: "d nc (n + 1) (kin_diffT k) s3 = Some (s', ncl)" and l: "length ncl = length nc"
    by blast
  have l': "kin_nnus k < length ncl" using l "0.prems"(1) by simp
  have "integration_loop env k n nc st out =
          (case force_conv k (ncl, out) of
             None \<Rightarrow> None
           | Some (nc'', out') \<Rightarrow> Some (n + 1, nc'', s', out'))"
    using integration_loop_unfold[OF st d[unfolded s3_def] l', of out] n by simp
  then have "integration_loop env k n nc st out =
      Some (10001, map (\<lambda>j. ncl ! j \<or> (1 \<le> j \<and> j \<le> kin_nnus k)) [0..<length ncl], s',
            out @ map Forced (map (\<lambda>i. kin_nuName k ! i)
                                  (filter (\<lambda>i. \<not> ncl ! i) [1..<kin_nnus k + 1])))"
    unfolding force_conv_eq[OF l' names] using n by simp
  moreover have "\<forall>i \<in> {1..kin_nnus k}.
      map (\<lambda>j. ncl ! j \<or> (1 \<le> j \<and> j \<le> kin_nnus k)) [0..<length ncl] ! i"
    using l' by simp
  moreover have "\<exists>nc0 s0. d nc0 10001 (kin_diffT k) s0 = Some (s', ncl)"
    using d n by auto
  ultimately show ?case using n by auto
next
  case (Suc m)
  then have n: "n < 10000" by simp
  define s3 where "s3 = before_stepper env k st"
  from total[of nc "n + 1" s3] obtain s' ncl where
    d: "d nc (n + 1) (kin_diffT k) s3 = Some (s', ncl)" and l: "length ncl = length nc"
    by blast
  have l': "kin_nnus k < length ncl" using l Suc.prems(1) by simp
  have unf: "integration_loop env k n nc st out =
          (if (\<forall>i \<in> {1..kin_nnus k}. ncl ! i) then Some (n + 1, ncl, s', out)
           else integration_loop env k (n + 1) ncl s' out)"
    using integration_loop_unfold[OF st d[unfolded s3_def] l', of out] n by simp
  show ?case
  proof (cases "\<forall>i \<in> {1..kin_nnus k}. ncl ! i")
    case True
    then have "integration_loop env k n nc st out = Some (n + 1, ncl, s', out)"
      using trans[OF unf if_P] by blast
    moreover have "\<exists>nc0 s0. d nc0 (n + 1) (kin_diffT k) s0 = Some (s', ncl)"
      using d by blast
    ultimately show ?thesis using True n by auto
  next
    case False
    have m: "m = nat (10000 - (n + 1))" using Suc.hyps(2) by simp
    have n1: "n + 1 \<le> 10000" using n by simp
    from Suc.hyps(1)[OF m l' n1, of s' out] obtain it nc' st' out' where
      r: "integration_loop env k (n + 1) ncl s' out = Some (it, nc', st', out')"
      and p: "n + 1 < it" "it \<le> 10001" "\<forall>i \<in> {1..kin_nnus k}. nc' ! i"
        "it \<le> 10000 \<longrightarrow>
           out' = out \<and> (\<exists>nc0 s0. d nc0 it (kin_diffT k) s0 = Some (st', nc'))"
        "it = 10001 \<longrightarrow>
                 (\<exists>nc0 s0 ncl. d nc0 10001 (kin_diffT k) s0 = Some (st', ncl)
                    \<and> nc' = map (\<lambda>j. ncl ! j \<or> (1 \<le> j \<and> j \<le> kin_nnus k)) [0..<length ncl]
                    \<and> out' = out @ map Forced (map (\<lambda>i. kin_nuName k ! i)
                                  (filter (\<lambda>i. \<not> ncl ! i) [1..<kin_nnus k + 1])))"
      by blast
    have "integration_loop env k n nc st out = Some (it, nc', st', out')"
      using trans[OF unf if_not_P[OF False]] r by (rule trans)
    moreover have "n < it" using p(1) by simp
    ultimately show ?thesis using p(2-5) by blast
  qed
qed

text \<open>
  \<^bold>\<open>C5.\<close> With a diffusion stepper present (and every call of it returning), the
  convergence loop returns: \<^verbatim>\<open>integration\<close> ends after at most 10001 passes with every
  flag \<open>nuConv[1..nnus]\<close> true and prints the number of passes. If it ends within 10000
  passes, the flags are those the stepper returned in the last pass and no name is
  printed. If it ends at pass 10001, the flags the stepper returned are forced to true,
  and the names of exactly the species whose flag was false are printed, in order. A pass
  \<open>n + 1 \<le> 10000\<close> in which the stepper returns all flags true ends the loop at once.
\<close>

theorem integration_terminates:
  assumes st: "stepper env = Some d"
    and total: "\<And>nc it s. \<exists>s' nc'. d nc it (kin_diffT k) s = Some (s', nc') \<and> length nc' = length nc"
    and names: "kin_nnus k < length (kin_nuName k)"
    and len: "kin_nnus k < length nuConv"
  shows "(\<exists>it nc' st' out s1.
           integration env k nuConv st = Some (it, nc', st', out @ [Number_of_iteration it])
           \<and> 1 \<le> it \<and> it \<le> 10001
           \<and> (\<forall>i \<in> {1..kin_nnus k}. nc' ! i)
           \<and> (it \<le> 10000 \<longrightarrow>
                 out = [] \<and> (\<exists>nc0 s0. d nc0 it (kin_diffT k) s0 = Some (s1, nc')))
           \<and> (it = 10001 \<longrightarrow>
                 (\<exists>nc0 s0 ncl. d nc0 10001 (kin_diffT k) s0 = Some (s1, ncl)
                    \<and> nc' = map (\<lambda>j. ncl ! j \<or> (1 \<le> j \<and> j \<le> kin_nnus k)) [0..<length ncl]
                    \<and> out = map Forced (map (\<lambda>i. kin_nuName k ! i)
                                  (filter (\<lambda>i. \<not> ncl ! i) [1..<kin_nnus k + 1])))))
         \<and> (\<forall>n nc0 s0 out0 s1 nc1.
               n < 10000 \<and> d nc0 (n + 1) (kin_diffT k) (before_stepper env k s0) = Some (s1, nc1)
               \<and> kin_nnus k < length nc1 \<and> (\<forall>i \<in> {1..kin_nnus k}. nc1 ! i)
               \<longrightarrow> integration_loop env k n nc0 s0 out0 = Some (n + 1, nc1, s1, out0))"
proof
  from init_nuConv_returns[OF len names] obtain nc0 where
    i: "init_nuConv k nuConv = Some nc0" by blast
  have l0: "kin_nnus k < length nc0"
    using init_nuConv_length[OF i] len by simp
  have z: "(0::int) \<le> 10000" by simp
  from integration_loop_result[OF st total names l0 z, of st "[]"]
  obtain it nc' st' out' where
    r: "integration_loop env k 0 nc0 st [] = Some (it, nc', st', out')"
    and p: "0 < it" "it \<le> 10001" "\<forall>i \<in> {1..kin_nnus k}. nc' ! i"
      "it \<le> 10000 \<longrightarrow>
         out' = [] \<and> (\<exists>nc0 s0. d nc0 it (kin_diffT k) s0 = Some (st', nc'))"
      "it = 10001 \<longrightarrow>
         (\<exists>nc0 s0 ncl. d nc0 10001 (kin_diffT k) s0 = Some (st', ncl)
            \<and> nc' = map (\<lambda>j. ncl ! j \<or> (1 \<le> j \<and> j \<le> kin_nnus k)) [0..<length ncl]
            \<and> out' = [] @ map Forced (map (\<lambda>i. kin_nuName k ! i)
                          (filter (\<lambda>i. \<not> ncl ! i) [1..<kin_nnus k + 1])))"
    by blast
  define st'' where "st'' = (case monod env of
      Some growth \<Rightarrow> growth (kin_dt k * real_of_int (kin_nevery k)) st' | None \<Rightarrow> st')"
  have res: "integration env k nuConv st = Some (it, nc', st'', out' @ [Number_of_iteration it])"
    unfolding integration_def by (simp only: i r bind.bind_lunit prod.case Let_def st''_def)
  have one: "1 \<le> it" using p(1) by simp
  have p5: "it = 10001 \<longrightarrow>
         (\<exists>nc0 s0 ncl. d nc0 10001 (kin_diffT k) s0 = Some (st', ncl)
            \<and> nc' = map (\<lambda>j. ncl ! j \<or> (1 \<le> j \<and> j \<le> kin_nnus k)) [0..<length ncl]
            \<and> out' = map Forced (map (\<lambda>i. kin_nuName k ! i)
                          (filter (\<lambda>i. \<not> ncl ! i) [1..<kin_nnus k + 1])))"
    using p(5) by (simp only: append_Nil)
  show "\<exists>it nc' st' out s1.
           integration env k nuConv st = Some (it, nc', st', out @ [Number_of_iteration it])
           \<and> 1 \<le> it \<and> it \<le> 10001
           \<and> (\<forall>i \<in> {1..kin_nnus k}. nc' ! i)
           \<and> (it \<le> 10000 \<longrightarrow>
                 out = [] \<and> (\<exists>nc0 s0. d nc0 it (kin_diffT k) s0 = Some (s1, nc')))
           \<and> (it = 10001 \<longrightarrow>
                 (\<exists>nc0 s0 ncl. d nc0 10001 (kin_diffT k) s0 = Some (s1, ncl)
                    \<and> nc' = map (\<lambda>j. ncl ! j \<or> (1 \<le> j \<and> j \<le> kin_nnus k)) [0..<length ncl]
                    \<and> out = map Forced (map (\<lambda>i. kin_nuName k ! i)
                                  (filter (\<lambda>i. \<not> ncl ! i) [1..<kin_nnus k + 1]))))"
    using res one p(2) p(3) p(4) p5
    by (intro exI[of _ it] exI[of _ nc'] exI[of _ st''] exI[of _ out'] exI[of _ st'] conjI)
next
  show "\<forall>n nc0 s0 out0 s1 nc1.
               n < 10000 \<and> d nc0 (n + 1) (kin_diffT k) (before_stepper env k s0) = Some (s1, nc1)
               \<and> kin_nnus k < length nc1 \<and> (\<forall>i \<in> {1..kin_nnus k}. nc1 ! i)
               \<longrightarrow> integration_loop env k n nc0 s0 out0 = Some (n + 1, nc1, s1, out0)"
  proof (intro allI impI, elim conjE)
    fix n nc0 s0 out0 s1 nc1
    assume n: "n < (10000::int)"
      and d: "d nc0 (n + 1) (kin_diffT k) (before_stepper env k s0) = Some (s1, nc1)"
      and l: "kin_nnus k < length nc1" and a: "\<forall>i \<in> {1..kin_nnus k}. nc1 ! i"
    have "integration_loop env k n nc0 s0 out0 =
            (if (\<forall>i \<in> {1..kin_nnus k}. nc1 ! i) then Some (n + 1, nc1, s1, out0)
             else integration_loop env k (n + 1) nc1 s1 out0)"
      using integration_loop_unfold[OF st d l, of out0] n by simp
    then show "integration_loop env k n nc0 s0 out0 = Some (n + 1, nc1, s1, out0)"
      by (rule trans[OF _ if_P[OF a]])
  qed
qed

text \<open>The example stepper converges at its third call: three passes, nothing forced.\<close>

theorem integration_terminates_witness:
  "stepper ex_coupling = Some ex_stepper
   \<and> kin_nnus ex_kin < length (kin_nuName ex_kin)
   \<and> kin_nnus ex_kin < length [False, False]
   \<and> integration ex_coupling ex_kin [False, False] 0 = Some (3, [True, True], 3, [Number_of_iteration 3])
   \<and> integration_loop ex_coupling ex_kin 2 [False, False] 2 [] = Some (3, [True, True], 3, [])"
proof -
  have a: "stepper ex_coupling = Some ex_stepper" by (simp add: ex_coupling_def)
  have b: "\<exists>s' nc'. ex_stepper nc it (kin_diffT ex_kin) s = Some (s', nc') \<and> length nc' = length nc"
    for nc it s
    by (simp add: ex_stepper_def)
  have c: "kin_nnus ex_kin < length (kin_nuName ex_kin)" by (simp add: ex_kin_def)
  have d: "kin_nnus ex_kin < length [False, False]" by (simp add: ex_kin_def)
  have e: "integration ex_coupling ex_kin [False, False] 0
             = Some (3, [True, True], 3, [Number_of_iteration 3])"
    by code_simp
  have f: "integration_loop ex_coupling ex_kin 2 [False, False] 2 [] = Some (3, [True, True], 3, [])"
    by code_simp
  show ?thesis
    using integration_terminates[of ex_coupling ex_stepper ex_kin "[False, False]" 0, OF a b c d]
      a c d e f by simp
qed

section \<open>The update of one cell\<close>

lemma update_cell_true:
  assumes "update_cell c i g (s, m) = Some (s', m')"
    and "rd (ghost s) (int g) = Some False"
  obtains prev ind d r v G R S where
    "rd (nuPrev s) (int i) = Some prev" "nuR_index c (int g) = Some ind"
    "rd (diffD c) (int i) = Some d" "rd2 (nuR s) (int i) ind = Some r"
    "compute_flux c s d prev r (int g) = Some v"
    "s' = s\<lparr>nuGrid := G, nuR := R, nuS := S\<rparr>"
    "\<And>k l. rd2 G k l = (if k = int g \<and> l = int i then Some (if v > 0 then v else floor_conc)
                          else rd2 (nuGrid s) k l)"
    "\<And>k l. rd2 R k l = (if k = int i \<and> l = ind then Some 0 else rd2 (nuR s) k l)"
    "\<And>k. k \<noteq> int i \<Longrightarrow> rd S k = rd (nuS s) k"
    "m' = (if m < (if v > 0 then v else floor_conc) then (if v > 0 then v else floor_conc) else m)"
proof -
  from assms obtain prev ind d r v g1 r1 sx where
    a: "rd (nuPrev s) (int i) = Some prev" "nuR_index c (int g) = Some ind"
      "rd (diffD c) (int i) = Some d" "rd2 (nuR s) (int i) ind = Some r"
      "compute_flux c s d prev r (int g) = Some v"
    and g1: "wr2 (nuGrid s) (int g) (int i) v = Some g1"
    and r1: "wr2 (nuR s) (int i) ind 0 = Some r1"
    and rest: "(if v > 0 then do {
            s1 \<leftarrow> wr2 (nuS s) (int i) ind (if unit c = 0 then v / 1000 else v);
            Some (s\<lparr>nuGrid := g1, nuR := r1, nuS := s1\<rparr>)
          } else do {
            g2 \<leftarrow> wr2 g1 (int g) (int i) floor_conc;
            s1 \<leftarrow> wr2 (nuS s) (int i) ind floor_conc;
            Some (s\<lparr>nuGrid := g2, nuR := r1, nuS := s1\<rparr>)
          }) = Some sx"
    and fin: "(do { cur \<leftarrow> rd2 (nuGrid sx) (int g) (int i);
                   Some (sx, if m < cur then cur else m) }) = Some (s', m')"
    unfolding update_cell_def Let_def fst_conv snd_conv
    by (simp add: bind_eq_Some_conv) blast
  show ?thesis
  proof (cases "v > 0")
    case True
    with rest obtain S where S: "wr2 (nuS s) (int i) ind (if unit c = 0 then v / 1000 else v) = Some S"
      and sx: "sx = s\<lparr>nuGrid := g1, nuR := r1, nuS := S\<rparr>"
      by (auto simp: bind_eq_Some_conv)
    have G: "rd2 g1 k l = (if k = int g \<and> l = int i then Some (if v > 0 then v else floor_conc)
                          else rd2 (nuGrid s) k l)" for k l
      using rd2_wr2[OF g1, of k l] True by simp
    have s': "s' = sx" and m': "m' = (if m < v then v else m)"
      using fin G[of "int g" "int i"] True by (auto simp: sx bind_eq_Some_conv)
    show ?thesis
    proof (rule that[OF a])
      show "s' = s\<lparr>nuGrid := g1, nuR := r1, nuS := S\<rparr>" using s' sx by simp
      show "rd2 g1 k l = (if k = int g \<and> l = int i then Some (if v > 0 then v else floor_conc)
                          else rd2 (nuGrid s) k l)" for k l by (rule G)
      show "rd2 r1 k l = (if k = int i \<and> l = ind then Some 0 else rd2 (nuR s) k l)" for k l
        by (rule rd2_wr2[OF r1])
      show "k \<noteq> int i \<Longrightarrow> rd S k = rd (nuS s) k" for k
        by (rule rd_wr2_other[OF S])
      show "m' = (if m < (if v > 0 then v else floor_conc) then (if v > 0 then v else floor_conc) else m)"
        using m' True by simp
    qed
  next
    case False
    with rest obtain g2 S where g2: "wr2 g1 (int g) (int i) floor_conc = Some g2"
      and S: "wr2 (nuS s) (int i) ind floor_conc = Some S"
      and sx: "sx = s\<lparr>nuGrid := g2, nuR := r1, nuS := S\<rparr>"
      by (auto simp: bind_eq_Some_conv)
    have G: "rd2 g2 k l = (if k = int g \<and> l = int i then Some (if v > 0 then v else floor_conc)
                          else rd2 (nuGrid s) k l)" for k l
      using rd2_wr2[OF g2, of k l] rd2_wr2[OF g1, of k l] False by simp
    have s': "s' = sx" and m': "m' = (if m < floor_conc then floor_conc else m)"
      using fin G[of "int g" "int i"] False by (auto simp: sx bind_eq_Some_conv)
    show ?thesis
    proof (rule that[OF a])
      show "s' = s\<lparr>nuGrid := g2, nuR := r1, nuS := S\<rparr>" using s' sx by simp
      show "rd2 g2 k l = (if k = int g \<and> l = int i then Some (if v > 0 then v else floor_conc)
                          else rd2 (nuGrid s) k l)" for k l by (rule G)
      show "rd2 r1 k l = (if k = int i \<and> l = ind then Some 0 else rd2 (nuR s) k l)" for k l
        by (rule rd2_wr2[OF r1])
      show "k \<noteq> int i \<Longrightarrow> rd S k = rd (nuS s) k" for k
        by (rule rd_wr2_other[OF S])
      show "m' = (if m < (if v > 0 then v else floor_conc) then (if v > 0 then v else floor_conc) else m)"
        using m' False by simp
    qed
  qed
qed

lemma update_cell_ghost:
  assumes "update_cell c i g (s, m) = Some (s', m')"
    and "rd (ghost s) (int g) = Some True"
  obtains prev old bulk v G where
    "rd (nuPrev s) (int i) = Some prev" "rd2 (nuGrid s) (int g) (int i) = Some old"
    "rd (nuBS s) (int i) = Some bulk"
    "compute_bc c s old prev (int g) bulk = Some v"
    "s' = s\<lparr>nuGrid := G\<rparr>"
    "\<And>k l. rd2 G k l = (if k = int g \<and> l = int i then Some v else rd2 (nuGrid s) k l)"
    "m' = (if m < v then v else m)"
proof -
  from assms obtain prev old bulk v G where
    a: "rd (nuPrev s) (int i) = Some prev" "rd2 (nuGrid s) (int g) (int i) = Some old"
      "rd (nuBS s) (int i) = Some bulk"
      "compute_bc c s old prev (int g) bulk = Some v"
    and G: "wr2 (nuGrid s) (int g) (int i) v = Some G"
    and fin: "(do { cur \<leftarrow> rd2 (nuGrid (s\<lparr>nuGrid := G\<rparr>)) (int g) (int i);
                   Some (s\<lparr>nuGrid := G\<rparr>, if m < cur then cur else m) }) = Some (s', m')"
    unfolding update_cell_def Let_def fst_conv snd_conv
    by (simp add: bind_eq_Some_conv) blast
  have G': "rd2 G k l = (if k = int g \<and> l = int i then Some v else rd2 (nuGrid s) k l)" for k l
    by (rule rd2_wr2[OF G])
  have "s' = s\<lparr>nuGrid := G\<rparr>" and "m' = (if m < v then v else m)"
    using fin G'[of "int g" "int i"] by (auto simp: bind_eq_Some_conv)
  then show ?thesis using that[OF a _ G'] by blast
qed

lemma differ_in_species_refl: "differ_in_species i s s"
  by (simp add: differ_in_species_def)

lemma differ_in_species_trans:
  "differ_in_species i s s' \<Longrightarrow> differ_in_species i s' s'' \<Longrightarrow> differ_in_species i s s''"
  by (simp add: differ_in_species_def)

lemma compute_bc_pos: "compute_bc c s old prev g bulk = Some v \<Longrightarrow> v > 0"
  using floor_conc_pos by (auto simp: compute_bc_def bind_eq_Some_conv split: if_splits)

text \<open>\<^verbatim>\<open>compute_bc\<close> and \<^verbatim>\<open>compute_flux\<close> read the state only through the ghost flags,
  the face values and the time step.\<close>

lemma compute_bc_cong_state:
  assumes "ghost s' = ghost s" "xbcm s' = xbcm s" "xbcp s' = xbcp s" "ybcm s' = ybcm s"
    "ybcp s' = ybcp s" "zbcm s' = zbcm s"
  shows "compute_bc c s' old prev g bulk = compute_bc c s old prev g bulk"
  unfolding compute_bc_def bc_value_def assms by (rule refl)


lemma update_cell_ghost_flag:
  assumes "update_cell c i g (s, m) = Some (s', m')"
  obtains b where "rd (ghost s) (int g) = Some b"
  using assms unfolding update_cell_def Let_def fst_conv snd_conv
  by (auto simp: bind_eq_Some_conv)

lemma update_cell_frame:
  assumes "update_cell c i g (s, m) = Some (s', m')"
  shows "differ_in_species i s s'" and "nuPrev s' = nuPrev s"
    and "\<And>k l. k \<noteq> int g \<Longrightarrow> rd2 (nuGrid s') k l = rd2 (nuGrid s) k l"
proof -
  from assms obtain b where b: "rd (ghost s) (int g) = Some b"
    by (rule update_cell_ghost_flag)
  have "differ_in_species i s s' \<and> nuPrev s' = nuPrev s
        \<and> (\<forall>k l. k \<noteq> int g \<longrightarrow> rd2 (nuGrid s') k l = rd2 (nuGrid s) k l)"
  proof (cases b)
    case True
    with b have gh: "rd (ghost s) (int g) = Some True" by simp
    show ?thesis
    proof (rule update_cell_ghost[OF assms gh])
      fix G v
      assume "s' = s\<lparr>nuGrid := G\<rparr>"
        and "\<And>k l. rd2 G k l = (if k = int g \<and> l = int i then Some v else rd2 (nuGrid s) k l)"
      then show ?thesis by (simp add: differ_in_species_def)
    qed
  next
    case False
    with b have gh: "rd (ghost s) (int g) = Some False" by simp
    show ?thesis
    proof (rule update_cell_true[OF assms gh])
      fix G R S ind v
      assume "s' = s\<lparr>nuGrid := G, nuR := R, nuS := S\<rparr>"
        and "\<And>k l. rd2 G k l = (if k = int g \<and> l = int i
                then Some (if v > 0 then v else floor_conc) else rd2 (nuGrid s) k l)"
        and "\<And>k l. rd2 R k l = (if k = int i \<and> l = ind then Some 0 else rd2 (nuR s) k l)"
      then show ?thesis by (simp add: differ_in_species_def)
    qed
  qed
  then show "differ_in_species i s s'" and "nuPrev s' = nuPrev s"
    and "\<And>k l. k \<noteq> int g \<Longrightarrow> rd2 (nuGrid s') k l = rd2 (nuGrid s) k l"
    by simp_all
qed

lemma update_cell_pos:
  assumes "update_cell c i g (s, m) = Some (s', m')"
  shows "\<exists>v. rd2 (nuGrid s') (int g) (int i) = Some v \<and> v > 0"
proof -
  from assms obtain b where b: "rd (ghost s) (int g) = Some b"
    by (rule update_cell_ghost_flag)
  show ?thesis
  proof (cases b)
    case True
    with b have gh: "rd (ghost s) (int g) = Some True" by simp
    show ?thesis
    proof (rule update_cell_ghost[OF assms gh])
      fix G prev old bulk v
      assume "s' = s\<lparr>nuGrid := G\<rparr>"
        and "\<And>k l. rd2 G k l = (if k = int g \<and> l = int i then Some v else rd2 (nuGrid s) k l)"
        and "compute_bc c s old prev (int g) bulk = Some v"
      then show ?thesis using compute_bc_pos[of c s old prev "int g" bulk v] by simp
    qed
  next
    case False
    with b have gh: "rd (ghost s) (int g) = Some False" by simp
    show ?thesis
    proof (rule update_cell_true[OF assms gh])
      fix G R S v
      assume "s' = s\<lparr>nuGrid := G, nuR := R, nuS := S\<rparr>"
        and "\<And>k l. rd2 G k l = (if k = int g \<and> l = int i
                then Some (if v > 0 then v else floor_conc) else rd2 (nuGrid s) k l)"
      then show ?thesis using floor_conc_pos by simp
    qed
  qed
qed

section \<open>The loop over the cells\<close>

lemma cells_frame:
  assumes "for_loop ks (update_cell c i) (s, m) = Some (s', m')"
  shows "differ_in_species i s s'" and "nuPrev s' = nuPrev s"
proof -
  have "differ_in_species i s (fst (s', m')) \<and> nuPrev (fst (s', m')) = nuPrev s"
  proof (rule for_loop_preserves[where P = "\<lambda>x. differ_in_species i s (fst x) \<and> nuPrev (fst x) = nuPrev s",
        OF assms])
    show "differ_in_species i s (fst (s, m)) \<and> nuPrev (fst (s, m)) = nuPrev s"
      by (simp add: differ_in_species_refl)
  next
    fix k x y
    assume step: "update_cell c i k x = Some y"
      and P: "differ_in_species i s (fst x) \<and> nuPrev (fst x) = nuPrev s"
    obtain s1 m1 s2 m2 where x: "x = (s1, m1)" and y: "y = (s2, m2)"
      by (cases x, cases y) auto
    from step have step': "update_cell c i k (s1, m1) = Some (s2, m2)"
      by (simp add: x y)
    show "differ_in_species i s (fst y) \<and> nuPrev (fst y) = nuPrev s"
      using update_cell_frame(1,2)[OF step'] P differ_in_species_trans[of i s s1 s2]
      by (simp add: x y)
  qed
  then show "differ_in_species i s s'" and "nuPrev s' = nuPrev s" by simp_all
qed

lemma cells_pos:
  assumes run: "for_loop ks (update_cell c i) (s, m) = Some (s', m')"
    and g: "g \<in> set ks"
  shows "\<exists>v. rd2 (nuGrid s') (int g) (int i) = Some v \<and> v > 0"
proof -
  let ?Q = "\<lambda>x :: grid_state \<times> real. \<exists>v. rd2 (nuGrid (fst x)) (int g) (int i) = Some v \<and> v > 0"
  have "?Q (s', m')"
  proof (rule for_loop_establishes[where Q = ?Q, OF run g])
    fix x y
    assume step: "update_cell c i g x = Some y"
    obtain s1 m1 s2 m2 where x: "x = (s1, m1)" and y: "y = (s2, m2)"
      by (cases x, cases y) auto
    from step have "update_cell c i g (s1, m1) = Some (s2, m2)" by (simp add: x y)
    from update_cell_pos[OF this] show "?Q y" by (simp add: y)
  next
    fix j x y
    assume step: "update_cell c i j x = Some y" and Q: "?Q x"
    obtain s1 m1 s2 m2 where x: "x = (s1, m1)" and y: "y = (s2, m2)"
      by (cases x, cases y) auto
    from step have step': "update_cell c i j (s1, m1) = Some (s2, m2)" by (simp add: x y)
    show "?Q y"
    proof (cases "j = g")
      case True
      with update_cell_pos[OF step'] show ?thesis by (simp add: y)
    next
      case False
      then have "int g \<noteq> int j" by simp
      from update_cell_frame(3)[OF step' this] Q show ?thesis by (simp add: x y)
    qed
  qed
  then show ?thesis by simp
qed

text \<open>The snapshot copies column \<open>i\<close> of \<open>nuGrid\<close> into row \<open>i\<close> of \<open>nuPrev\<close> and changes
  nothing else.\<close>

lemma snapshot_step:
  assumes "(do { v \<leftarrow> rd2 (nuGrid x) (int g) (int i);
                 p \<leftarrow> wr2 (nuPrev x) (int i) (int g) v;
                 Some (x\<lparr>nuPrev := p\<rparr>) }) = Some y"
  obtains p v where "y = x\<lparr>nuPrev := p\<rparr>" "rd2 (nuGrid x) (int g) (int i) = Some v"
    "\<And>k l. rd2 p k l = (if k = int i \<and> l = int g then Some v else rd2 (nuPrev x) k l)"
    "\<And>k. k \<noteq> int i \<Longrightarrow> rd p k = rd (nuPrev x) k"
proof -
  from assms obtain v p where v: "rd2 (nuGrid x) (int g) (int i) = Some v"
    and p: "wr2 (nuPrev x) (int i) (int g) v = Some p" and y: "y = x\<lparr>nuPrev := p\<rparr>"
    by (auto simp: bind_eq_Some_conv)
  show ?thesis
    by (rule that[OF y v rd2_wr2[OF p] rd_wr2_other[OF p]])
qed

lemma snapshot_frame:
  assumes "snapshot i s = Some s1"
  shows "differ_in_species i s s1" and "nuGrid s1 = nuGrid s" and "nuR s1 = nuR s"
proof -
  let ?P = "\<lambda>x. differ_in_species i s x \<and> nuGrid x = nuGrid s \<and> nuR x = nuR s"
  have "?P s1"
  proof (rule for_loop_preserves[where P = ?P, OF assms[unfolded snapshot_def]])
    show "?P s" by (simp add: differ_in_species_refl)
  next
    fix g x y
    assume step: "(do { v \<leftarrow> rd2 (nuGrid x) (int g) (int i);
                 p \<leftarrow> wr2 (nuPrev x) (int i) (int g) v;
                 Some (x\<lparr>nuPrev := p\<rparr>) }) = Some y" and P: "?P x"
    show "?P y"
    proof (rule snapshot_step[OF step])
      fix p
      assume "y = x\<lparr>nuPrev := p\<rparr>" and "\<And>k. k \<noteq> int i \<Longrightarrow> rd p k = rd (nuPrev x) k"
      then show "?P y" using P by (simp add: differ_in_species_def)
    qed
  qed
  then show "differ_in_species i s s1" and "nuGrid s1 = nuGrid s" and "nuR s1 = nuR s"
    by simp_all
qed

lemma snapshot_value:
  assumes run: "snapshot i s = Some s1" and g: "g < nat (nXYZ s)"
  shows "\<exists>v. rd2 (nuGrid s) (int g) (int i) = Some v \<and> rd2 (nuPrev s1) (int i) (int g) = Some v"
proof -
  let ?P = "\<lambda>x :: grid_state. nuGrid x = nuGrid s"
  let ?Q = "\<lambda>x :: grid_state. nuGrid x = nuGrid s
      \<and> (\<exists>v. rd2 (nuGrid s) (int g) (int i) = Some v \<and> rd2 (nuPrev x) (int i) (int g) = Some v)"
  have "?Q s1"
  proof (rule for_loop_at[where P = ?P and Q = ?Q and k = g, OF run[unfolded snapshot_def]])
    show "distinct [0..<nat (nXYZ s)]" by simp
    show "g \<in> set [0..<nat (nXYZ s)]" using g by simp
    show "?P s" by simp
  next
    fix j x y
    assume step: "(do { v \<leftarrow> rd2 (nuGrid x) (int j) (int i);
                 p \<leftarrow> wr2 (nuPrev x) (int i) (int j) v;
                 Some (x\<lparr>nuPrev := p\<rparr>) }) = Some y" and P: "?P x"
    show "?P y"
    proof (rule snapshot_step[OF step])
      fix p assume "y = x\<lparr>nuPrev := p\<rparr>"
      then show "?P y" using P by simp
    qed
  next
    fix x y
    assume step: "(do { v \<leftarrow> rd2 (nuGrid x) (int g) (int i);
                 p \<leftarrow> wr2 (nuPrev x) (int i) (int g) v;
                 Some (x\<lparr>nuPrev := p\<rparr>) }) = Some y" and P: "?P x"
    show "?Q y"
    proof (rule snapshot_step[OF step])
      fix p v
      assume "y = x\<lparr>nuPrev := p\<rparr>" "rd2 (nuGrid x) (int g) (int i) = Some v"
        "\<And>k l. rd2 p k l = (if k = int i \<and> l = int g then Some v else rd2 (nuPrev x) k l)"
      then show "?Q y" using P by simp
    qed
  next
    fix j x y
    assume j: "j \<noteq> g"
      and step: "(do { v \<leftarrow> rd2 (nuGrid x) (int j) (int i);
                 p \<leftarrow> wr2 (nuPrev x) (int i) (int j) v;
                 Some (x\<lparr>nuPrev := p\<rparr>) }) = Some y" and Q: "?Q x"
    show "?Q y"
    proof (rule snapshot_step[OF step])
      fix p v
      assume "y = x\<lparr>nuPrev := p\<rparr>"
        "\<And>k l. rd2 p k l = (if k = int i \<and> l = int j then Some v else rd2 (nuPrev x) k l)"
      then show "?Q y" using Q j by simp
    qed
  qed
  then show ?thesis by simp
qed

section \<open>The pass over one species\<close>

lemma species_pass_parts:
  assumes "species_pass c i s = Some (s2, pc)"
  obtains s1 pm where "snapshot i s = Some s1"
    "for_loop [0..<nat (nXYZ s1)] (update_cell c i) (s1, 0) = Some (s2, pm)"
    "for_loop [0..<nat (nXYZ s2)] (check_cell c s2 i (if 0 > pm then 0 else pm)) True = Some pc"
  using assms unfolding species_pass_def Let_def
  by (auto simp: bind_eq_Some_conv)

lemma species_pass_frame:
  assumes "species_pass c i s = Some (s2, pc)"
  shows "differ_in_species i s s2"
proof (rule species_pass_parts[OF assms])
  fix s1 pm
  assume "snapshot i s = Some s1"
    and "for_loop [0..<nat (nXYZ s1)] (update_cell c i) (s1, 0) = Some (s2, pm)"
  then show ?thesis
    using snapshot_frame(1) cells_frame(1) differ_in_species_trans by blast
qed

lemma species_pass_pos:
  assumes run: "species_pass c i s = Some (s2, pc)" and g: "g < nat (nXYZ s2)"
  shows "\<exists>v. rd2 (nuGrid s2) (int g) (int i) = Some v \<and> v > 0"
proof (rule species_pass_parts[OF run])
  fix s1 pm
  assume snap: "snapshot i s = Some s1"
    and cells: "for_loop [0..<nat (nXYZ s1)] (update_cell c i) (s1, 0) = Some (s2, pm)"
  have "nXYZ s2 = nXYZ s1"
    using cells_frame(1)[OF cells] by (simp add: differ_in_species_def)
  then have "g \<in> set [0..<nat (nXYZ s1)]" using g by simp
  then show ?thesis by (rule cells_pos[OF cells])
qed

text \<open>The two ways through the body of the species loop.\<close>

lemma diffusion_species_cases [consumes 1, case_names skipped active]:
  assumes "diffusion_species c nuConv i (s, cv) = Some (s', cv')"
  obtains (skipped) ty where "rd (nuType c) (int i) = Some ty"
      "ty \<noteq> 0 \<or> rd nuConv (int i) = Some True" "s' = s" "cv' = cv"
  | (active) pc b where "rd (nuType c) (int i) = Some 0" "rd nuConv (int i) = Some False"
      "species_pass c i s = Some (s', pc)" "rd cv (int i) = Some b"
      "wr cv (int i) (b \<and> pc) = Some cv'"
proof -
  from assms obtain ty todo where ty: "rd (nuType c) (int i) = Some ty"
    and todo: "(if ty = 0 then map_option Not (rd nuConv (int i)) else Some False) = Some todo"
    and rest: "(if todo then do {
       (s', p_conv) \<leftarrow> species_pass c i s;
       cv0 \<leftarrow> rd cv (int i);
       conv' \<leftarrow> wr cv (int i) (cv0 \<and> p_conv);
       Some (s', conv')
     } else Some (s, cv)) = Some (s', cv')"
    unfolding diffusion_species_def Let_def fst_conv snd_conv
    by (auto simp: bind_eq_Some_conv)
  show ?thesis
  proof (cases todo)
    case True
    with todo have a: "ty = 0" "rd nuConv (int i) = Some False"
      by (auto split: if_splits)
    from rest True obtain pc b where "species_pass c i s = Some (s', pc)"
      "rd cv (int i) = Some b" "wr cv (int i) (b \<and> pc) = Some cv'"
      by (auto simp: bind_eq_Some_conv)
    then show ?thesis using active ty a by simp
  next
    case False
    with todo have "ty \<noteq> 0 \<or> rd nuConv (int i) = Some True"
      by (auto split: if_splits)
    then show ?thesis using skipped[OF ty] rest False by simp
  qed
qed

lemma diffusion_species_frame:
  assumes "diffusion_species c nuConv i (s, cv) = Some (s', cv')"
  shows "differ_in_species i s s'" and "length cv' = length cv"
    and "\<And>k. k \<noteq> int i \<Longrightarrow> rd cv' k = rd cv k"
proof -
  have "differ_in_species i s s' \<and> length cv' = length cv
        \<and> (\<forall>k. k \<noteq> int i \<longrightarrow> rd cv' k = rd cv k)"
    using assms
  proof (cases rule: diffusion_species_cases)
    case (skipped ty)
    then show ?thesis by (simp add: differ_in_species_refl)
  next
    case (active pc b)
    then show ?thesis
      using species_pass_frame[OF active(3)] length_wr[OF active(5)] rd_wr[OF active(5)]
      by simp
  qed
  then show "differ_in_species i s s'" and "length cv' = length cv"
    and "\<And>k. k \<noteq> int i \<Longrightarrow> rd cv' k = rd cv k"
    by simp_all
qed

section \<open>The steps before the species passes\<close>

lemma rd2_nth: "rd2 xss (int k) (int l) = Some v \<Longrightarrow> xss ! k ! l = v"
  by (auto simp: rd2_def rd_def split: option.splits if_splits)

lemma rd_nth: "rd xs (int k) = Some v \<Longrightarrow> xs ! k = v"
  by (auto simp: rd_def split: if_splits)

lemma rd2_cell_of: "rd2 G k (int i) = Some v \<Longrightarrow> cell_of G k i = v"
  by (auto simp: rd2_def rd_def cell_of_def split: option.splits if_splits)

lemma update_grids_frame:
  assumes "update_grids c s = Some s0"
  shows "nuGrid s0 = nuGrid s" "nuR s0 = nuR s" "nuPrev s0 = nuPrev s" "nuBS s0 = nuBS s"
    "recv_buff_size s0 = recv_buff_size s" "send_buff_size s0 = send_buff_size s"
    "sendbuff s0 = sendbuff s"
proof -
  from assms obtain gh where
    "s0 = s\<lparr>bzhi := real_of_int (bnz c) * stepz c, nXYZ := nX c * nY c * (bnz c + 2),
             ghost := gh\<rparr>"
    unfolding update_grids_def Let_def by (simp add: bind_eq_Some_conv) blast
  then show "nuGrid s0 = nuGrid s" "nuR s0 = nuR s" "nuPrev s0 = nuPrev s" "nuBS s0 = nuBS s"
    "recv_buff_size s0 = recv_buff_size s" "send_buff_size s0 = send_buff_size s"
    "sendbuff s0 = sendbuff s"
    by simp_all
qed

lemma grow_buffers_frame:
  "nuGrid (grow_buffers c s) = nuGrid s" "nuR (grow_buffers c s) = nuR s"
  "nuPrev (grow_buffers c s) = nuPrev s" "nuBS (grow_buffers c s) = nuBS s"
  "ghost (grow_buffers c s) = ghost s" "nXYZ (grow_buffers c s) = nXYZ s"
  "diffT (grow_buffers c s) = diffT s"
  by (simp_all add: grow_buffers_def Let_def)

lemma grow_buffers_recv_size:
  assumes "recv_buff_size s' = recv_buff_size s"
  shows "recv_buff_size (grow_buffers c s') = recv_buff_size (grow_buffers c s)"
  using assms by (simp add: grow_buffers_def Let_def)

lemma halo_exchange_parts:
  assumes "halo_exchange c s recvbuff = Some s2"
  obtains G where "halo_unpack c (recv_buff_size (grow_buffers c s)) recvbuff (nuGrid s) = Some G"
    "nuGrid s2 = G" "nuR s2 = nuR s" "nuPrev s2 = nuPrev s" "nuBS s2 = nuBS s"
    "ghost s2 = ghost s" "nXYZ s2 = nXYZ s" "diffT s2 = diffT s"
proof -
  from assms obtain sb G where
    G: "halo_unpack c (recv_buff_size (grow_buffers c s)) recvbuff (nuGrid (grow_buffers c s))
          = Some G"
    and s2: "s2 = (grow_buffers c s)\<lparr>sendbuff := sb, nuGrid := G\<rparr>"
    unfolding halo_exchange_def Let_def by (auto simp: bind_eq_Some_conv)
  show ?thesis
    by (rule that[of G]) (use G s2 in \<open>simp_all add: grow_buffers_frame\<close>)
qed


lemma load_bc_frame:
  assumes "load_bc c i s = Some s'"
  shows "nuGrid s' = nuGrid s" "nuR s' = nuR s" "nuPrev s' = nuPrev s" "nuBS s' = nuBS s"
    "ghost s' = ghost s" "nXYZ s' = nXYZ s" "diffT s' = diffT s"
proof -
  from assms obtain a1 a2 a3 a4 a5 a6 where
    "s' = s\<lparr>xbcm := a1, xbcp := a2, ybcm := a3, ybcp := a4, zbcm := a5, zbcp := a6\<rparr>"
    unfolding load_bc_def by (simp add: bind_eq_Some_conv split: if_splits) blast+
  then show "nuGrid s' = nuGrid s" "nuR s' = nuR s" "nuPrev s' = nuPrev s" "nuBS s' = nuBS s"
    "ghost s' = ghost s" "nXYZ s' = nXYZ s" "diffT s' = diffT s"
    by simp_all
qed

text \<open>The values \<^verbatim>\<open>load_bc\<close> leaves in the six members: the prescribed face values of
  the species.\<close>

lemma load_bc_members:
  assumes "load_bc c i s = Some s'"
  shows "face_value s' bulk f = (if f = ZHigh then bulk else prescribed c i f)"
    and "zbcp s' = prescribed c i ZHigh"
proof -
  from assms obtain row where row: "rd (iniS c) (int i) = Some row"
    and rest: "(do {
     s1 \<leftarrow> rd row 1;
     s2 \<leftarrow> rd row 2;
     s3 \<leftarrow> rd row 3;
     s4 \<leftarrow> rd row 4;
     s5 \<leftarrow> rd row 5;
     s6 \<leftarrow> rd row 6;
     if unit c = 0 then
       Some (s\<lparr>xbcm := s1 * 1000, xbcp := s2 * 1000, ybcm := s3 * 1000,
               ybcp := s4 * 1000, zbcm := s5 * 1000, zbcp := s6 * 1000\<rparr>)
     else
       Some (s\<lparr>xbcm := s1, xbcp := s2, ybcm := s3, ybcp := s4, zbcm := s5, zbcp := s6\<rparr>)
   }) = Some s'"
    unfolding load_bc_def by (auto simp: bind_eq_Some_conv)
  from rest obtain a1 where a1: "rd row 1 = Some a1" and rest1: "(do {
     s2 \<leftarrow> rd row 2;
     s3 \<leftarrow> rd row 3;
     s4 \<leftarrow> rd row 4;
     s5 \<leftarrow> rd row 5;
     s6 \<leftarrow> rd row 6;
     if unit c = 0 then
       Some (s\<lparr>xbcm := a1 * 1000, xbcp := s2 * 1000, ybcm := s3 * 1000,
               ybcp := s4 * 1000, zbcm := s5 * 1000, zbcp := s6 * 1000\<rparr>)
     else
       Some (s\<lparr>xbcm := a1, xbcp := s2, ybcm := s3, ybcp := s4, zbcm := s5, zbcp := s6\<rparr>)
   }) = Some s'"
    by (cases "rd row 1") simp_all
  from rest1 obtain a2 where a2: "rd row 2 = Some a2" and rest2: "(do {
     s3 \<leftarrow> rd row 3;
     s4 \<leftarrow> rd row 4;
     s5 \<leftarrow> rd row 5;
     s6 \<leftarrow> rd row 6;
     if unit c = 0 then
       Some (s\<lparr>xbcm := a1 * 1000, xbcp := a2 * 1000, ybcm := s3 * 1000,
               ybcp := s4 * 1000, zbcm := s5 * 1000, zbcp := s6 * 1000\<rparr>)
     else
       Some (s\<lparr>xbcm := a1, xbcp := a2, ybcm := s3, ybcp := s4, zbcm := s5, zbcp := s6\<rparr>)
   }) = Some s'"
    by (cases "rd row 2") simp_all
  from rest2 obtain a3 where a3: "rd row 3 = Some a3" and rest3: "(do {
     s4 \<leftarrow> rd row 4;
     s5 \<leftarrow> rd row 5;
     s6 \<leftarrow> rd row 6;
     if unit c = 0 then
       Some (s\<lparr>xbcm := a1 * 1000, xbcp := a2 * 1000, ybcm := a3 * 1000,
               ybcp := s4 * 1000, zbcm := s5 * 1000, zbcp := s6 * 1000\<rparr>)
     else
       Some (s\<lparr>xbcm := a1, xbcp := a2, ybcm := a3, ybcp := s4, zbcm := s5, zbcp := s6\<rparr>)
   }) = Some s'"
    by (cases "rd row 3") simp_all
  from rest3 obtain a4 where a4: "rd row 4 = Some a4" and rest4: "(do {
     s5 \<leftarrow> rd row 5;
     s6 \<leftarrow> rd row 6;
     if unit c = 0 then
       Some (s\<lparr>xbcm := a1 * 1000, xbcp := a2 * 1000, ybcm := a3 * 1000,
               ybcp := a4 * 1000, zbcm := s5 * 1000, zbcp := s6 * 1000\<rparr>)
     else
       Some (s\<lparr>xbcm := a1, xbcp := a2, ybcm := a3, ybcp := a4, zbcm := s5, zbcp := s6\<rparr>)
   }) = Some s'"
    by (cases "rd row 4") simp_all
  from rest4 obtain a5 where a5: "rd row 5 = Some a5" and rest5: "(do {
     s6 \<leftarrow> rd row 6;
     if unit c = 0 then
       Some (s\<lparr>xbcm := a1 * 1000, xbcp := a2 * 1000, ybcm := a3 * 1000,
               ybcp := a4 * 1000, zbcm := a5 * 1000, zbcp := s6 * 1000\<rparr>)
     else
       Some (s\<lparr>xbcm := a1, xbcp := a2, ybcm := a3, ybcp := a4, zbcm := a5, zbcp := s6\<rparr>)
   }) = Some s'"
    by (cases "rd row 5") simp_all
  from rest5 obtain a6 where a6: "rd row 6 = Some a6" and s': "s' = (if unit c = 0
       then s\<lparr>xbcm := a1 * 1000, xbcp := a2 * 1000, ybcm := a3 * 1000,
               ybcp := a4 * 1000, zbcm := a5 * 1000, zbcp := a6 * 1000\<rparr>
       else s\<lparr>xbcm := a1, xbcp := a2, ybcm := a3, ybcp := a4, zbcm := a5, zbcp := a6\<rparr>)"
    by (cases "rd row 6") (simp_all split: if_splits)
  have r: "iniS c ! i = row" using row by (rule rd_nth)
  have n: "row ! 1 = a1" "row ! 2 = a2" "row ! 3 = a3" "row ! 4 = a4" "row ! 5 = a5"
    "row ! 6 = a6"
    using a1 a2 a3 a4 a5 a6 by (simp_all add: rd_def split: if_splits)
  show "face_value s' bulk f = (if f = ZHigh then bulk else prescribed c i f)"
    unfolding s' using r n by (cases f) (simp_all add: face_value_def prescribed_def)
  show "zbcp s' = prescribed c i ZHigh"
    unfolding s' using r n by (simp add: prescribed_def)
qed

lemma compute_bulk_frame:
  assumes "compute_bulk c i s = Some s'"
  shows "nuGrid s' = nuGrid s" "nuR s' = nuR s" "nuPrev s' = nuPrev s"
    "ghost s' = ghost s" "nXYZ s' = nXYZ s" "diffT s' = diffT s"
    "face_value s' bulk f = face_value s bulk f"
proof -
  from assms obtain bs where "s' = s\<lparr>nuBS := bs\<rparr>"
    unfolding compute_bulk_def by (simp add: bind_eq_Some_conv split: if_splits) blast
  then show "nuGrid s' = nuGrid s" "nuR s' = nuR s" "nuPrev s' = nuPrev s"
    "ghost s' = ghost s" "nXYZ s' = nXYZ s" "diffT s' = diffT s"
    "face_value s' bulk f = face_value s bulk f"
    by (simp_all add: face_value_def split: face.splits)
qed

section \<open>The first species loop\<close>

lemma bulk_step_parts:
  assumes "bulk_step c iter i s = Some s'"
  obtains s1 where "load_bc c i s = Some s1"
    "(if iter = 1 \<and> nuName c ! i \<noteq> ''o2'' \<and> q c \<ge> 0 \<and> af c \<ge> 0
      then compute_bulk c i s1 else Some s1) = Some s'"
proof -
  from assms obtain s1 where l: "load_bc c i s = Some s1"
    and r: "(if iter = 1 then do {
       name \<leftarrow> rd (nuName c) (int i);
       if name \<noteq> ''o2'' \<and> q c \<ge> 0 \<and> af c \<ge> 0 then compute_bulk c i s1 else Some s1
     } else Some s1) = Some s'"
    unfolding bulk_step_def by (auto simp: bind_eq_Some_conv)
  have "(if iter = 1 \<and> nuName c ! i \<noteq> ''o2'' \<and> q c \<ge> 0 \<and> af c \<ge> 0
      then compute_bulk c i s1 else Some s1) = Some s'"
  proof (cases "iter = 1")
    case True
    with r obtain name where n: "rd (nuName c) (int i) = Some name"
      and r': "(if name \<noteq> ''o2'' \<and> q c \<ge> 0 \<and> af c \<ge> 0 then compute_bulk c i s1 else Some s1)
                = Some s'"
      by (auto simp: bind_eq_Some_conv)
    from rd_nth[OF n] r' True show ?thesis by simp
  next
    case False
    with r show ?thesis by simp
  qed
  with l show ?thesis by (rule that)
qed

lemma bulk_step_frame:
  assumes "bulk_step c iter i s = Some s'"
  shows "nuGrid s' = nuGrid s \<and> nuR s' = nuR s \<and> nuPrev s' = nuPrev s
         \<and> ghost s' = ghost s \<and> nXYZ s' = nXYZ s \<and> diffT s' = diffT s"
    and "face_value s' bulk f = (if f = ZHigh then bulk else prescribed c i f)"
proof -
  have "(nuGrid s' = nuGrid s \<and> nuR s' = nuR s \<and> nuPrev s' = nuPrev s
         \<and> ghost s' = ghost s \<and> nXYZ s' = nXYZ s \<and> diffT s' = diffT s)
        \<and> face_value s' bulk f = (if f = ZHigh then bulk else prescribed c i f)"
  proof (rule bulk_step_parts[OF assms])
    fix s1
    assume l: "load_bc c i s = Some s1"
      and r: "(if iter = 1 \<and> nuName c ! i \<noteq> ''o2'' \<and> q c \<ge> 0 \<and> af c \<ge> 0
        then compute_bulk c i s1 else Some s1) = Some s'"
    show ?thesis
    proof (cases "iter = 1 \<and> nuName c ! i \<noteq> ''o2'' \<and> q c \<ge> 0 \<and> af c \<ge> 0")
      case True
      with r have cb: "compute_bulk c i s1 = Some s'" by simp
      from compute_bulk_frame(7)[OF cb, where bulk = bulk and f = f]
        compute_bulk_frame(1-6)[OF cb] load_bc_frame[OF l]
        load_bc_members(1)[OF l, of bulk f]
      show ?thesis by simp
    next
      case False
      with r have "s' = s1" by auto
      with load_bc_frame[OF l] load_bc_members(1)[OF l, of bulk f] show ?thesis by simp
    qed
  qed
  then show "nuGrid s' = nuGrid s \<and> nuR s' = nuR s \<and> nuPrev s' = nuPrev s
         \<and> ghost s' = ghost s \<and> nXYZ s' = nXYZ s \<and> diffT s' = diffT s"
    and "face_value s' bulk f = (if f = ZHigh then bulk else prescribed c i f)"
    by simp_all
qed

lemma bulk_loop_frame:
  assumes "for_loop ks (bulk_step c iter) s = Some s'"
  shows "nuGrid s' = nuGrid s \<and> nuR s' = nuR s \<and> nuPrev s' = nuPrev s
         \<and> ghost s' = ghost s \<and> nXYZ s' = nXYZ s \<and> diffT s' = diffT s"
proof (rule for_loop_preserves[where
      P = "\<lambda>x. nuGrid x = nuGrid s \<and> nuR x = nuR s \<and> nuPrev x = nuPrev s
         \<and> ghost x = ghost s \<and> nXYZ x = nXYZ s \<and> diffT x = diffT s", OF assms])
  fix k x y
  assume "bulk_step c iter k x = Some y"
    and "nuGrid x = nuGrid s \<and> nuR x = nuR s \<and> nuPrev x = nuPrev s
         \<and> ghost x = ghost s \<and> nXYZ x = nXYZ s \<and> diffT x = diffT s"
  then show "nuGrid y = nuGrid s \<and> nuR y = nuR s \<and> nuPrev y = nuPrev s
         \<and> ghost y = ghost s \<and> nXYZ y = nXYZ s \<and> diffT y = diffT s"
    using bulk_step_frame(1)[of c iter k x y] by simp
qed simp

text \<open>After the first species loop the six members hold the face values of the last
  species, \<open>nnus\<close>.\<close>

lemma bulk_loop_members:
  assumes "for_loop [1..<n + 1] (bulk_step c iter) s = Some s'" and "1 \<le> n"
  shows "face_value s' bulk f = (if f = ZHigh then bulk else prescribed c n f)"
proof -
  have "[1..<n + 1] = [1..<n] @ [n]" using assms(2) by simp
  with assms(1) obtain s1 where "bulk_step c iter n s1 = Some s'"
    by (auto simp: for_loop_append split: option.splits)
  then show ?thesis by (rule bulk_step_frame(2))
qed

section \<open>The bulk mass balance\<close>





section \<open>The flux formula\<close>


lemma bc_value_cong_state:
  assumes "ghost s' = ghost s" "xbcm s' = xbcm s" "xbcp s' = xbcp s" "ybcm s' = ybcm s"
    "ybcp s' = ybcp s" "zbcm s' = zbcm s"
  shows "bc_value c s' old prev g bulk = bc_value c s old prev g bulk"
  unfolding bc_value_def assms by (rule refl)


section \<open>The value of a cell after the loop over the cells\<close>


text \<open>A ghost cell holds the boundary value, computed from its own value before the loop,
  the snapshot and the bulk value, or \<open>1e-20\<close>.\<close>

lemma cells_ghost_value:
  assumes run: "for_loop [0..<n] (update_cell c i) (s, m) = Some (s', m')"
    and g: "g < n" and ghost: "rd (ghost s) (int g) = Some True"
  shows "\<exists>prev old bulk w.
           rd (nuPrev s) (int i) = Some prev \<and> rd2 (nuGrid s) (int g) (int i) = Some old
           \<and> rd (nuBS s) (int i) = Some bulk
           \<and> bc_value c s old prev (int g) bulk = Some w
           \<and> rd2 (nuGrid s') (int g) (int i) = Some (if w \<le> 0 then floor_conc else w)"
proof -
  let ?P = "\<lambda>x :: grid_state \<times> real. differ_in_species i s (fst x) \<and> nuPrev (fst x) = nuPrev s
      \<and> rd2 (nuGrid (fst x)) (int g) (int i) = rd2 (nuGrid s) (int g) (int i)"
  let ?Q = "\<lambda>x :: grid_state \<times> real. \<exists>prev old bulk w.
           rd (nuPrev s) (int i) = Some prev \<and> rd2 (nuGrid s) (int g) (int i) = Some old
           \<and> rd (nuBS s) (int i) = Some bulk
           \<and> bc_value c s old prev (int g) bulk = Some w
           \<and> rd2 (nuGrid (fst x)) (int g) (int i) = Some (if w \<le> 0 then floor_conc else w)"
  have "?Q (s', m')"
  proof (rule for_loop_at[where P = ?P and Q = ?Q and k = g, OF run])
    show "distinct [0..<n]" by simp
    show "g \<in> set [0..<n]" using g by simp
    show "?P (s, m)" by (simp add: differ_in_species_refl)
  next
    fix j x y
    assume j: "j \<noteq> g" and step: "update_cell c i j x = Some y" and P: "?P x"
    obtain s1 m1 s2 m2 where x: "x = (s1, m1)" and y: "y = (s2, m2)"
      by (cases x, cases y) auto
    from step have step': "update_cell c i j (s1, m1) = Some (s2, m2)" by (simp add: x y)
    have ne: "int g \<noteq> int j" using j by simp
    show "?P y"
      using update_cell_frame(1,2)[OF step'] update_cell_frame(3)[OF step' ne, of "int i"]
        P differ_in_species_trans[of i s s1 s2]
      by (simp add: x y)
  next
    fix x y
    assume step: "update_cell c i g x = Some y" and P: "?P x"
    obtain s1 m1 s2 m2 where x: "x = (s1, m1)" and y: "y = (s2, m2)"
      by (cases x, cases y) auto
    from step have step': "update_cell c i g (s1, m1) = Some (s2, m2)" by (simp add: x y)
    from P have d1: "differ_in_species i s s1" and p1: "nuPrev s1 = nuPrev s"
      and o1: "rd2 (nuGrid s1) (int g) (int i) = rd2 (nuGrid s) (int g) (int i)"
      by (simp_all add: x)
    have eq: "ghost s1 = ghost s" "xbcm s1 = xbcm s" "xbcp s1 = xbcp s" "ybcm s1 = ybcm s"
      "ybcp s1 = ybcp s" "zbcm s1 = zbcm s"
      and bs: "nuBS s1 = nuBS s"
      using d1 by (simp_all add: differ_in_species_def)
    have t: "rd (ghost s1) (int g) = Some True" using ghost eq(1) by simp
    show "?Q y"
    proof (rule update_cell_ghost[OF step' t])
      fix prev old bulk v G
      assume a: "rd (nuPrev s1) (int i) = Some prev"
        "rd2 (nuGrid s1) (int g) (int i) = Some old"
        "rd (nuBS s1) (int i) = Some bulk"
        "compute_bc c s1 old prev (int g) bulk = Some v"
        "s2 = s1\<lparr>nuGrid := G\<rparr>"
        "\<And>k l. rd2 G k l = (if k = int g \<and> l = int i then Some v else rd2 (nuGrid s1) k l)"
      from a(4) obtain w where w: "bc_value c s1 old prev (int g) bulk = Some w"
        and v: "v = (if w \<le> 0 then floor_conc else w)"
        by (auto simp: compute_bc_def bind_eq_Some_conv)
      have "bc_value c s old prev (int g) bulk = Some w"
        using w bc_value_cong_state[OF eq] by simp
      moreover have "rd2 (nuGrid s2) (int g) (int i) = Some (if w \<le> 0 then floor_conc else w)"
        using a(5,6) v by simp
      moreover have "rd (nuPrev s) (int i) = Some prev"
        "rd2 (nuGrid s) (int g) (int i) = Some old" "rd (nuBS s) (int i) = Some bulk"
        using a(1,2,3) p1 o1 bs by simp_all
      ultimately show "?Q y" unfolding y fst_conv by blast
    qed
  next
    fix j x y
    assume j: "j \<noteq> g" and step: "update_cell c i j x = Some y" and Q: "?Q x"
    obtain s1 m1 s2 m2 where x: "x = (s1, m1)" and y: "y = (s2, m2)"
      by (cases x, cases y) auto
    from step have step': "update_cell c i j (s1, m1) = Some (s2, m2)" by (simp add: x y)
    have "int g \<noteq> int j" using j by simp
    from update_cell_frame(3)[OF step' this] Q show "?Q y" by (simp add: x y)
  qed
  then show ?thesis by simp
qed

text \<open>Every cell of the range has a ghost flag.\<close>

lemma cells_ghost_flag:
  assumes run: "for_loop [0..<n] (update_cell c i) (s, m) = Some (s', m')" and g: "g < n"
  shows "\<exists>b. rd (ghost s) (int g) = Some b"
proof -
  let ?P = "\<lambda>x :: grid_state \<times> real. ghost (fst x) = ghost s"
  let ?Q = "\<lambda>x :: grid_state \<times> real. \<exists>b. rd (ghost s) (int g) = Some b"
  have "?Q (s', m')"
  proof (rule for_loop_at[where P = ?P and Q = ?Q and k = g, OF run])
    show "distinct [0..<n]" by simp
    show "g \<in> set [0..<n]" using g by simp
    show "?P (s, m)" by simp
  next
    fix j x y
    assume step: "update_cell c i j x = Some y" and P: "?P x"
    obtain s1 m1 s2 m2 where x: "x = (s1, m1)" and y: "y = (s2, m2)"
      by (cases x, cases y) auto
    from step have step': "update_cell c i j (s1, m1) = Some (s2, m2)" by (simp add: x y)
    show "?P y"
      using update_cell_frame(1)[OF step'] P by (simp add: x y differ_in_species_def)
  next
    fix x y
    assume step: "update_cell c i g x = Some y" and P: "?P x"
    obtain s1 m1 s2 m2 where x: "x = (s1, m1)" and y: "y = (s2, m2)"
      by (cases x, cases y) auto
    from step have step': "update_cell c i g (s1, m1) = Some (s2, m2)" by (simp add: x y)
    from step' obtain b where "rd (ghost s1) (int g) = Some b"
      by (rule update_cell_ghost_flag)
    then show "?Q y" using P by (auto simp: x)
  qed
  then show ?thesis by simp
qed


section \<open>The value of a cell after the pass over its species\<close>

lemma species_pass_shared:
  assumes "species_pass c i s = Some (s2, pc)"
  shows "nXYZ s2 = nXYZ s" "ghost s2 = ghost s" "diffT s2 = diffT s" "nuBS s2 = nuBS s"
    "xbcm s2 = xbcm s" "xbcp s2 = xbcp s" "ybcm s2 = ybcm s" "ybcp s2 = ybcp s"
    "zbcm s2 = zbcm s" "zbcp s2 = zbcp s"
  using species_pass_frame[OF assms] by (simp_all add: differ_in_species_def)

text \<open>The snapshot of the pass is the field at the start of the pass.\<close>

lemma species_pass_snapshot:
  assumes run: "species_pass c i s = Some (s2, pc)" and g: "g < nat (nXYZ s2)"
  shows "\<exists>v. rd2 (nuGrid s) (int g) (int i) = Some v
            \<and> rd2 (nuPrev s2) (int i) (int g) = Some v"
proof (rule species_pass_parts[OF run])
  fix s1 pm
  assume snap: "snapshot i s = Some s1"
    and cells: "for_loop [0..<nat (nXYZ s1)] (update_cell c i) (s1, 0) = Some (s2, pm)"
  have "nXYZ s = nXYZ s2" using species_pass_shared(1)[OF run] by simp
  with g have "g < nat (nXYZ s)" by simp
  from snapshot_value[OF snap this] cells_frame(2)[OF cells] show ?thesis by simp
qed

lemma species_pass_prev:
  assumes run: "species_pass c i s = Some (s2, pc)"
    and prev: "rd (nuPrev s2) (int i) = Some prev"
    and k: "0 \<le> k" "k < nXYZ s2"
    and v: "rd prev k = Some v"
  shows "rd2 (nuGrid s) k (int i) = Some v"
proof -
  have "nat k < nat (nXYZ s2)" using k by simp
  from species_pass_snapshot[OF run this] obtain w where
    w: "rd2 (nuGrid s) k (int i) = Some w" "rd2 (nuPrev s2) (int i) k = Some w"
    using k by auto
  from w(2) prev v have "w = v" by (simp add: rd2_def)
  with w(1) show ?thesis by simp
qed

lemma species_pass_ghost_flag:
  assumes run: "species_pass c i s = Some (s2, pc)" and g: "g < nat (nXYZ s2)"
  shows "\<exists>b. rd (ghost s2) (int g) = Some b"
proof (rule species_pass_parts[OF run])
  fix s1 pm
  assume snap: "snapshot i s = Some s1"
    and cells: "for_loop [0..<nat (nXYZ s1)] (update_cell c i) (s1, 0) = Some (s2, pm)"
  note f = cells_frame[OF cells]
  have eq: "nXYZ s2 = nXYZ s1" "ghost s2 = ghost s1"
    using f(1) by (simp_all add: differ_in_species_def)
  from cells_ghost_flag[OF cells, of g] g eq show ?thesis by simp
qed


lemma species_pass_ghost_value:
  assumes run: "species_pass c i s = Some (s2, pc)"
    and g: "g < nat (nXYZ s2)" and ghost: "rd (ghost s2) (int g) = Some True"
  shows "\<exists>prev old bulk w.
           rd (nuPrev s2) (int i) = Some prev \<and> rd2 (nuGrid s) (int g) (int i) = Some old
           \<and> rd prev (int g) = Some old
           \<and> rd (nuBS s2) (int i) = Some bulk
           \<and> bc_value c s2 old prev (int g) bulk = Some w
           \<and> rd2 (nuGrid s2) (int g) (int i) = Some (if w \<le> 0 then floor_conc else w)"
proof (rule species_pass_parts[OF run])
  fix s1 pm
  assume snap: "snapshot i s = Some s1"
    and cells: "for_loop [0..<nat (nXYZ s1)] (update_cell c i) (s1, 0) = Some (s2, pm)"
  note f = cells_frame[OF cells]
  have eq: "ghost s2 = ghost s1" "xbcm s2 = xbcm s1" "xbcp s2 = xbcp s1" "ybcm s2 = ybcm s1"
      "ybcp s2 = ybcp s1" "zbcm s2 = zbcm s1"
    and eq': "nXYZ s2 = nXYZ s1" "nuBS s2 = nuBS s1"
    using f(1) by (simp_all add: differ_in_species_def)
  have "\<exists>prev old bulk w.
           rd (nuPrev s1) (int i) = Some prev \<and> rd2 (nuGrid s1) (int g) (int i) = Some old
           \<and> rd (nuBS s1) (int i) = Some bulk
           \<and> bc_value c s1 old prev (int g) bulk = Some w
           \<and> rd2 (nuGrid s2) (int g) (int i) = Some (if w \<le> 0 then floor_conc else w)"
    by (rule cells_ghost_value[OF cells]) (use g ghost eq eq' in simp_all)
  then obtain prev old bulk w where
    a: "rd (nuPrev s1) (int i) = Some prev" "rd2 (nuGrid s1) (int g) (int i) = Some old"
      "rd (nuBS s1) (int i) = Some bulk" "bc_value c s1 old prev (int g) bulk = Some w"
      "rd2 (nuGrid s2) (int g) (int i) = Some (if w \<le> 0 then floor_conc else w)"
    by blast
  from species_pass_snapshot[OF run g] obtain v where
    v: "rd2 (nuGrid s) (int g) (int i) = Some v" "rd2 (nuPrev s2) (int i) (int g) = Some v"
    by blast
  have old: "old = v" using a(2) v(1) snapshot_frame(2)[OF snap] by simp
  have 1: "rd (nuPrev s2) (int i) = Some prev" using a(1) f(2) by simp
  have 2: "rd prev (int g) = Some old" using v(2) 1 old by (simp add: rd2_def)
  have 3: "rd2 (nuGrid s) (int g) (int i) = Some old" using v(1) old by simp
  have 4: "rd (nuBS s2) (int i) = Some bulk" using a(3) eq'(2) by simp
  have 5: "bc_value c s2 old prev (int g) bulk = Some w"
    using a(4) bc_value_cong_state[OF eq] by simp
  from 1 2 3 4 5 a(5) show ?thesis by blast
qed


section \<open>The whole step on one process\<close>

lemma same_for_species_refl: "same_for_species i s s"
  by (simp add: same_for_species_def)

lemma same_for_species_trans:
  "same_for_species i s s' \<Longrightarrow> same_for_species i s' s'' \<Longrightarrow> same_for_species i s s''"
  by (simp add: same_for_species_def)

lemma differ_same:
  assumes "differ_in_species j s s'" and "j \<noteq> i"
  shows "same_for_species i s s'"
proof -
  have "int i \<noteq> int j" using assms(2) by simp
  with assms(1) show ?thesis
    unfolding differ_in_species_def same_for_species_def by simp
qed

text \<open>What holds for species \<open>i\<close> after its own pass, and is kept by the passes of the other
  species, holds at the end of the species loop.\<close>

lemma species_loop_at:
  assumes run: "for_loop [1..<n + 1] (diffusion_species c nuConv) (s, cv) = Some (s', cv')"
    and i: "1 \<le> i" "i \<le> n"
    and P: "P s cv"
    and keepP: "\<And>j x xc y yc. j \<noteq> i \<Longrightarrow> differ_in_species j x y \<Longrightarrow> length yc = length xc
        \<Longrightarrow> (\<And>k. k \<noteq> int j \<Longrightarrow> rd yc k = rd xc k) \<Longrightarrow> P x xc \<Longrightarrow> P y yc"
    and step: "\<And>x xc y yc. diffusion_species c nuConv i (x, xc) = Some (y, yc) \<Longrightarrow> P x xc \<Longrightarrow> Q y yc"
    and keepQ: "\<And>j x xc y yc. j \<noteq> i \<Longrightarrow> differ_in_species j x y \<Longrightarrow> length yc = length xc
        \<Longrightarrow> (\<And>k. k \<noteq> int j \<Longrightarrow> rd yc k = rd xc k) \<Longrightarrow> Q x xc \<Longrightarrow> Q y yc"
  shows "Q s' cv'"
proof -
  have "case_prod Q (s', cv')"
  proof (rule for_loop_at[where P = "case_prod P" and Q = "case_prod Q" and k = i, OF run])
    show "distinct [1..<n + 1]" by simp
    show "i \<in> set [1..<n + 1]" using i by (auto simp del: upt_Suc)
    show "case_prod P (s, cv)" using P by simp
  next
    fix j x y
    assume j: "j \<noteq> i" and st: "diffusion_species c nuConv j x = Some y" and p: "case_prod P x"
    obtain x1 xc y1 yc where x: "x = (x1, xc)" and y: "y = (y1, yc)"
      by (cases x, cases y) auto
    from st have st': "diffusion_species c nuConv j (x1, xc) = Some (y1, yc)" by (simp add: x y)
    note fr = diffusion_species_frame[OF st']
    show "case_prod P y"
      using keepP[OF j fr(1) fr(2) fr(3)] p by (simp add: x y)
  next
    fix x y
    assume st: "diffusion_species c nuConv i x = Some y" and p: "case_prod P x"
    obtain x1 xc y1 yc where x: "x = (x1, xc)" and y: "y = (y1, yc)"
      by (cases x, cases y) auto
    from st have st': "diffusion_species c nuConv i (x1, xc) = Some (y1, yc)" by (simp add: x y)
    show "case_prod Q y" using step[OF st'] p by (simp add: x y)
  next
    fix j x y
    assume j: "j \<noteq> i" and st: "diffusion_species c nuConv j x = Some y" and p: "case_prod Q x"
    obtain x1 xc y1 yc where x: "x = (x1, xc)" and y: "y = (y1, yc)"
      by (cases x, cases y) auto
    from st have st': "diffusion_species c nuConv j (x1, xc) = Some (y1, yc)" by (simp add: x y)
    note fr = diffusion_species_frame[OF st']
    show "case_prod Q y"
      using keepQ[OF j fr(1) fr(2) fr(3)] p by (simp add: x y)
  qed
  then show ?thesis by simp
qed

text \<open>The pass of a liquid, unconverged species \<open>i\<close> inside the species loop: it starts in a
  state that agrees with the head of the loop on species \<open>i\<close>, and its result agrees with
  the end of the loop.\<close>

lemma species_loop_pass:
  assumes run: "for_loop [1..<n + 1] (diffusion_species c nuConv) (s, cv) = Some (s', cv')"
    and i: "1 \<le> i" "i \<le> n"
    and liquid: "rd (nuType c) (int i) = Some 0"
    and unconv: "rd nuConv (int i) = Some False"
  obtains x y pc where "same_for_species i s x" "species_pass c i x = Some (y, pc)"
    "same_for_species i y s'"
proof -
  let ?P = "\<lambda>(x :: grid_state) (xc :: bool list). same_for_species i s x"
  let ?Q = "\<lambda>(z :: grid_state) (zc :: bool list).
      \<exists>x y pc. same_for_species i s x \<and> species_pass c i x = Some (y, pc)
         \<and> same_for_species i y z"
  have "?Q s' cv'"
  proof (rule species_loop_at[where P = ?P and Q = ?Q, OF run i])
    show "?P s cv" by (rule same_for_species_refl)
  next
    fix j x xc y yc
    assume "j \<noteq> i" and "differ_in_species j x y" and "?P x xc"
    then show "?P y yc" using differ_same same_for_species_trans by blast
  next
    fix x xc y yc
    assume st: "diffusion_species c nuConv i (x, xc) = Some (y, yc)" and P: "?P x xc"
    from st show "?Q y yc"
    proof (cases rule: diffusion_species_cases)
      case (skipped ty)
      then show ?thesis using liquid unconv by simp
    next
      case (active pc b)
      with P same_for_species_refl[of i y] show ?thesis by blast
    qed
  next
    fix j x xc y yc
    assume "j \<noteq> i" and "differ_in_species j x y" and "?Q x xc"
    then show "?Q y yc" using differ_same same_for_species_trans by blast
  qed
  then show ?thesis using that by blast
qed

lemma diffusion_local_parts:
  assumes "diffusion_local c s nuConv iter dT recvbuff = Some (s', conv)"
  obtains s0 s2 s3 where
    "(if iter = 1 \<and> bl c > 0 then update_grids c s else Some s) = Some s0"
    "halo_exchange c (s0\<lparr>diffT := dT\<rparr>) recvbuff = Some s2"
    "for_loop [1..<nnus c + 1] (bulk_step c iter) s2 = Some s3"
    "for_loop [1..<nnus c + 1] (diffusion_species c nuConv) (s3, replicate (nnus c + 1) True)
       = Some (s', conv)"
  using assms unfolding diffusion_local_def Let_def
  by (auto simp: bind_eq_Some_conv simp del: upt_Suc)

text \<open>The state \<open>s3\<close> at the head of the species passes: the field is the one of the call
  after the halo exchange, the reaction rates are those of the call, the time step is the
  argument, the bulk values are those left by the first species loop, and the six face
  values are those of the last species.\<close>

lemma diffusion_local_head:
  assumes "diffusion_local c s nuConv iter dT recvbuff = Some (s', conv)" and "1 \<le> nnus c"
  obtains G s2 s3 where
    "halo_unpack c (recv_buff_size (grow_buffers c s)) recvbuff (nuGrid s) = Some G"
    "for_loop [1..<nnus c + 1] (bulk_step c iter) s2 = Some s3"
    "for_loop [1..<nnus c + 1] (diffusion_species c nuConv) (s3, replicate (nnus c + 1) True)
       = Some (s', conv)"
    "nuGrid s3 = G" "nuR s3 = nuR s" "diffT s3 = dT"
    "nuR s2 = nuR s" "nuBS s2 = nuBS s"
    "\<And>bulk f. face_value s3 bulk f = (if f = ZHigh then bulk else prescribed c (nnus c) f)"
proof (rule diffusion_local_parts[OF assms(1)])
  fix s0 s2 s3
  assume a: "(if iter = 1 \<and> bl c > 0 then update_grids c s else Some s) = Some s0"
    and h: "halo_exchange c (s0\<lparr>diffT := dT\<rparr>) recvbuff = Some s2"
    and b: "for_loop [1..<nnus c + 1] (bulk_step c iter) s2 = Some s3"
    and l: "for_loop [1..<nnus c + 1] (diffusion_species c nuConv)
              (s3, replicate (nnus c + 1) True) = Some (s', conv)"
  have s0: "nuGrid s0 = nuGrid s" "nuR s0 = nuR s" "nuBS s0 = nuBS s"
    "recv_buff_size s0 = recv_buff_size s"
    using a update_grids_frame[of c s s0] by (auto split: if_splits)
  have sz: "recv_buff_size (grow_buffers c (s0\<lparr>diffT := dT\<rparr>))
      = recv_buff_size (grow_buffers c s)"
    by (rule grow_buffers_recv_size) (simp add: s0)
  show ?thesis
  proof (rule halo_exchange_parts[OF h])
    fix G
    assume G: "halo_unpack c (recv_buff_size (grow_buffers c (s0\<lparr>diffT := dT\<rparr>))) recvbuff
                 (nuGrid (s0\<lparr>diffT := dT\<rparr>)) = Some G"
      and s2: "nuGrid s2 = G" "nuR s2 = nuR (s0\<lparr>diffT := dT\<rparr>)"
        "nuBS s2 = nuBS (s0\<lparr>diffT := dT\<rparr>)" "diffT s2 = diffT (s0\<lparr>diffT := dT\<rparr>)"
    have 1: "halo_unpack c (recv_buff_size (grow_buffers c s)) recvbuff (nuGrid s) = Some G"
      using G sz s0 by simp
    note f = bulk_loop_frame[OF b]
    show ?thesis
      by (rule that[OF 1 b l]) (use f s2 s0 bulk_loop_members[OF b assms(2)] in simp_all)
  qed
qed

section \<open>The floor of the concentrations\<close>




section \<open>The update of a true cell\<close>






section \<open>The ghost cells of a Dirichlet face\<close>

lemma ex_run2:
  "diffusion_local ex_cfg2 ex_state2 [False, False, False] 1 1 []
     = Some (ex_result2, [True, True, True])"
  by code_simp

lemma bc_face_cong_state:
  assumes "ghost s' = ghost s"
  shows "bc_face c s' g = bc_face c s g"
  unfolding bc_face_def qualifies_def true_cell_def assms by (rule refl)

lemma face_value_cong_state:
  assumes "xbcm s' = xbcm s" "xbcp s' = xbcp s" "ybcm s' = ybcm s" "ybcp s' = ybcp s"
    "zbcm s' = zbcm s" "zbcp s' = zbcp s"
  shows "face_value s' bulk f = face_value s bulk f"
  unfolding face_value_def assms by (rule refl)

text \<open>What one diffusion step stores in a ghost cell of a Dirichlet face, for a liquid,
  unconverged species \<open>i\<close>: \<open>2 * b - a\<close>, or \<open>1e-20\<close> when that is not positive, where \<open>a\<close> is
  the value of the adjacent true cell at the start of the step and \<open>b\<close> is the bulk value
  of species \<open>i\<close> on the z-high face and, on the five other faces, the boundary value
  prescribed for the last species \<open>nnus\<close>, whatever \<open>i\<close> is: the first species loop of
  \<^verbatim>\<open>diffusion()\<close> loads the six face values of every species in turn into the same six
  members, and the second loop, which calls \<^verbatim>\<open>compute_bc\<close>, does not load them again.\<close>

lemma diffusion_dirichlet_ghost:
  assumes run: "diffusion_local c s nuConv iter dT recvbuff = Some (s', conv)"
    and i: "1 \<le> i" "i \<le> nnus c"
    and liquid: "rd (nuType c) (int i) = Some 0"
    and unconv: "rd nuConv (int i) = Some False"
    and g: "g < nat (nXYZ s')" and ghost: "\<not> true_cell s' (int g)"
    and face: "bc_face c s' (int g) = Some f" and dir: "dirichlet_on c f"
    and adj: "0 \<le> adjacent c (int g) f" "adjacent c (int g) f < nXYZ s'"
  shows "\<exists>G b w. halo_unpack c (recv_buff_size (grow_buffers c s)) recvbuff (nuGrid s) = Some G
           \<and> b = (if f = ZHigh then nuBS s' ! i else prescribed c (nnus c) f)
           \<and> w = 2 * b - cell_of G (adjacent c (int g) f) i
           \<and> conc s' (int g) i = (if w \<le> 0 then floor_conc else w)"
proof -
  have n1: "1 \<le> nnus c" using i by simp
  show ?thesis
  proof (rule diffusion_local_head[OF run n1])
    fix G s3
    assume G: "halo_unpack c (recv_buff_size (grow_buffers c s)) recvbuff (nuGrid s) = Some G"
      and loop: "for_loop [1..<nnus c + 1] (diffusion_species c nuConv)
        (s3, replicate (nnus c + 1) True) = Some (s', conv)"
      and s3: "nuGrid s3 = G"
      and mem: "\<And>bulk f. face_value s3 bulk f
                  = (if f = ZHigh then bulk else prescribed c (nnus c) f)"
    show ?thesis
    proof (rule species_loop_pass[OF loop i liquid unconv])
      fix x y pc
      assume sx: "same_for_species i s3 x" and pass: "species_pass c i x = Some (y, pc)"
        and sy: "same_for_species i y s'"
      from sy have eq: "nXYZ s' = nXYZ y" "ghost s' = ghost y" "nuBS s' = nuBS y"
        and grid: "rd2 (nuGrid s') (int g) (int i) = rd2 (nuGrid y) (int g) (int i)"
        by (simp_all add: same_for_species_def)
      from sx have xg: "\<And>k. rd2 (nuGrid x) k (int i) = rd2 G k (int i)"
        and xm: "xbcm x = xbcm s3" "xbcp x = xbcp s3" "ybcm x = ybcm s3" "ybcp x = ybcp s3"
          "zbcm x = zbcm s3" "zbcp x = zbcp s3"
        using s3 by (simp_all add: same_for_species_def)
      note sh = species_pass_shared[OF pass]
      have ym: "xbcm y = xbcm s3" "xbcp y = xbcp s3" "ybcm y = ybcm s3" "ybcp y = ybcp s3"
          "zbcm y = zbcm s3" "zbcp y = zbcp s3"
        using sh xm by simp_all
      have fv: "face_value y bulk f = (if f = ZHigh then bulk else prescribed c (nnus c) f)"
        for bulk
        using face_value_cong_state[OF ym, of bulk f] mem[of bulk f] by simp
      have gy: "g < nat (nXYZ y)" using g eq(1) by simp
      from species_pass_ghost_flag[OF pass gy] obtain b where b: "rd (ghost y) (int g) = Some b"
        by blast
      with ghost eq(2) have t: "rd (ghost y) (int g) = Some True"
        by (cases b) (simp_all add: true_cell_def)
      from species_pass_ghost_value[OF pass gy t] obtain p old bulk w where
        a: "rd (nuPrev y) (int i) = Some p" "rd (nuBS y) (int i) = Some bulk"
          "bc_value c y old p (int g) bulk = Some w"
          "rd2 (nuGrid y) (int g) (int i) = Some (if w \<le> 0 then floor_conc else w)"
        by blast
      have cb: "compute_bc c y old p (int g) bulk = Some (if w \<le> 0 then floor_conc else w)"
        unfolding compute_bc_def using a(3) by simp
      have fy: "bc_face c y (int g) = Some f"
        using face bc_face_cong_state[OF eq(2)] by simp
      from compute_bc_dirichlet[OF fy dir cb] obtain q where
        q: "rd p (adjacent c (int g) f) = Some q"
        and v: "(if w \<le> 0 then floor_conc else w)
                  = (if 2 * face_value y bulk f - q \<le> 0 then floor_conc
                     else 2 * face_value y bulk f - q)"
        by blast
      have "rd2 (nuGrid x) (adjacent c (int g) f) (int i) = Some q"
        by (rule species_pass_prev[OF pass a(1) _ _ q]) (use adj eq(1) in simp_all)
      then have cq: "cell_of G (adjacent c (int g) f) i = q"
        using xg rd2_cell_of by simp
      have bulk: "nuBS s' ! i = bulk" using rd_nth[OF a(2)] eq(3) by simp
      have cn: "conc s' (int g) i = (if w \<le> 0 then floor_conc else w)"
        unfolding conc_def using rd2_nth[of "nuGrid s'" g i] grid a(4) by auto
      have "conc s' (int g) i
          = (if 2 * (if f = ZHigh then nuBS s' ! i else prescribed c (nnus c) f)
                 - cell_of G (adjacent c (int g) f) i \<le> 0 then floor_conc
             else 2 * (if f = ZHigh then nuBS s' ! i else prescribed c (nnus c) f)
                 - cell_of G (adjacent c (int g) f) i)"
        unfolding cn v fv cq bulk by (rule refl)
      with G show ?thesis by blast
    qed
  qed
qed

text \<open>
  \<^bold>\<open>C4.\<close> On the small grid with two species, all three axes are Dirichlet. Cell 10 is a
  ghost cell of the y-low face, and its adjacent true cell 13 holds 1 for the first
  species. The boundary value prescribed for the first species on that face is 5, so the
  claimed ghost value is \<open>2 * 5 - 1 = 9\<close>. One diffusion step stores \<open>2 * 50 - 1 = 99\<close>, where
  50 is the boundary value prescribed for the second species. (For the second species,
  the last one, the cell holds \<open>2 * 50 - 2 = 98\<close>, as claimed.)
\<close>

theorem diffusion_dirichlet_last_species:
  "diffusion_local ex_cfg2 ex_state2 [False, False, False] 1 1 []
     = Some (ex_result2, [True, True, True])
   \<and> \<not> true_cell ex_result2 10 \<and> bc_face ex_cfg2 ex_result2 10 = Some YLow
   \<and> dirichlet_on ex_cfg2 YLow \<and> adjacent ex_cfg2 10 YLow = 13
   \<and> prescribed ex_cfg2 1 YLow = 5 \<and> prescribed ex_cfg2 2 YLow = 50
   \<and> cell_of (nuGrid ex_state2) 13 1 = 1 \<and> cell_of (nuGrid ex_state2) 13 2 = 2
   \<and> conc ex_result2 10 1 = 2 * prescribed ex_cfg2 2 YLow - cell_of (nuGrid ex_state2) 13 1
   \<and> conc ex_result2 10 1 \<noteq> 2 * prescribed ex_cfg2 1 YLow - cell_of (nuGrid ex_state2) 13 1
   \<and> 0 < 2 * prescribed ex_cfg2 1 YLow - cell_of (nuGrid ex_state2) 13 1
   \<and> conc ex_result2 10 2 = 2 * prescribed ex_cfg2 2 YLow - cell_of (nuGrid ex_state2) 13 2"
proof -
  have "\<not> true_cell ex_result2 10" "bc_face ex_cfg2 ex_result2 10 = Some YLow"
    "dirichlet_on ex_cfg2 YLow" "adjacent ex_cfg2 10 YLow = 13"
    by (simp_all add: bc_defs dirichlet_on_def ex_defs ex_cfg2_def ex_state2_def
        ex_result2_def rd_def)
  moreover have "prescribed ex_cfg2 1 YLow = 5" "prescribed ex_cfg2 2 YLow = 50"
    "cell_of (nuGrid ex_state2) 13 1 = 1" "cell_of (nuGrid ex_state2) 13 2 = 2"
    "conc ex_result2 10 1 = 99" "conc ex_result2 10 2 = 98"
    by (simp_all add: prescribed_def cell_of_def conc_def ex_defs ex_cfg2_def ex_state2_def
        ex_result2_def)
  ultimately show ?thesis using ex_run2 by simp
qed

section \<open>The bulk concentration after one diffusion step\<close>




section \<open>The convergence flags\<close>

text \<open>A species that is skipped (its flag is true at the call, or it is not liquid) has a
  true local flag \<open>conv[i]\<close> after the species loops.\<close>

lemma diffusion_local_skipped:
  assumes run: "diffusion_local c s nuConv iter dT recvbuff = Some (s', conv)"
    and i: "1 \<le> i" "i \<le> nnus c"
    and skip: "rd nuConv (int i) = Some True \<or> (\<exists>ty. rd (nuType c) (int i) = Some ty \<and> ty \<noteq> 0)"
  shows "rd conv (int i) = Some True"
proof (rule diffusion_local_parts[OF run])
  fix s3
  assume loop: "for_loop [1..<nnus c + 1] (diffusion_species c nuConv)
      (s3, replicate (nnus c + 1) True) = Some (s', conv)"
  let ?P = "\<lambda>(x :: grid_state) (xc :: bool list). rd xc (int i) = Some True"
  show ?thesis
  proof (rule species_loop_at[where P = ?P and Q = ?P, OF loop i])
    show "rd (replicate (nnus c + 1) True) (int i) = Some True"
      using i by (simp add: rd_def)
  next
    fix j x xc y yc
    assume "j \<noteq> i" and "\<And>k. k \<noteq> int j \<Longrightarrow> rd yc k = rd xc k" and "?P x xc"
    then show "?P y yc" by simp
  next
    fix x xc y yc
    assume st: "diffusion_species c nuConv i (x, xc) = Some (y, yc)" and P: "?P x xc"
    from st show "?P y yc"
    proof (cases rule: diffusion_species_cases)
      case (skipped ty)
      with P show ?thesis by simp
    next
      case (active pc b)
      with skip show ?thesis by auto
    qed
  next
    fix j x xc y yc
    assume "j \<noteq> i" and "\<And>k. k \<noteq> int j \<Longrightarrow> rd yc k = rd xc k" and "?P x xc"
    then show "?P y yc" by simp
  qed
qed

text \<open>The conjunction of true flags is true.\<close>

lemma those_map_Some:
  assumes "\<And>x. x \<in> set xs \<Longrightarrow> f x = Some (g x)"
  shows "those (map f xs) = Some (map g xs)"
  using assms by (induction xs) simp_all

lemma allreduce_band_true:
  assumes "\<And>cv. cv \<in> set convs \<Longrightarrow> rd cv (int i) = Some True"
  shows "allreduce_band convs i = Some True"
proof -
  have "those (map (\<lambda>cv. rd cv (int i)) convs) = Some (map (\<lambda>cv. True) convs)"
    by (rule those_map_Some) (rule assms)
  then show ?thesis by (simp add: allreduce_band_def list_all_iff)
qed

text \<open>Storing the \<^verbatim>\<open>int\<close> at \<^verbatim>\<open>&nuConv[i]\<close> needs the elements \<open>i\<close> to \<open>i + 3\<close>.\<close>

lemma store_int_Some:
  assumes "store_int nc i b = Some nc'"
  shows "i + 3 < length nc" and "length nc' = length nc"
    and "rd nc' k = (if k = int i then Some b
                     else if k = int i + 1 \<or> k = int i + 2 \<or> k = int i + 3 then Some False
                     else rd nc k)"
proof -
  from assms obtain n0 n1 n2 where
    w: "wr nc (int i) b = Some n0" "wr n0 (int i + 1) False = Some n1"
      "wr n1 (int i + 2) False = Some n2" "wr n2 (int i + 3) False = Some nc'"
    unfolding store_int_def by (auto simp: bind_eq_Some_conv)
  have l: "length n0 = length nc" "length n1 = length nc" "length n2 = length nc"
    "length nc' = length nc"
    using w by (simp_all add: length_wr)
  show "length nc' = length nc" by (rule l(4))
  from w(4) l(3) show "i + 3 < length nc"
    by (auto simp: wr_def split: if_splits)
  show "rd nc' k = (if k = int i then Some b
                     else if k = int i + 1 \<or> k = int i + 2 \<or> k = int i + 3 then Some False
                     else rd nc k)"
    using rd_wr[OF w(1), of k] rd_wr[OF w(2), of k] rd_wr[OF w(3), of k] rd_wr[OF w(4), of k]
    by auto
qed

lemma reduce_loop_length:
  assumes "for_loop ks (\<lambda>i nc. do { b \<leftarrow> allreduce_band convs i; store_int nc i b }) nc
             = Some nc'"
  shows "length nc' = length nc"
proof (rule for_loop_preserves[where P = "\<lambda>x. length x = length nc", OF assms])
  fix k x y
  assume "(do { b \<leftarrow> allreduce_band convs k; store_int x k b }) = Some y"
    and "length x = length nc"
  then show "length y = length nc"
    by (auto simp: bind_eq_Some_conv store_int_Some(2))
qed simp

text \<open>The reduction returns only when \<open>nuConv\<close> has at least \<open>nnus + 4\<close> elements.\<close>

lemma reduce_conv_length:
  assumes run: "reduce_conv convs n nuConv = Some nc" and n: "1 \<le> n"
  shows "n + 3 < length nuConv"
proof -
  have "[1..<n + 1] = [1..<n] @ [n]" using n by simp
  with run obtain x b where
    pre: "for_loop [1..<n] (\<lambda>i nc. do { b \<leftarrow> allreduce_band convs i; store_int nc i b }) nuConv
            = Some x"
    and last: "store_int x n b = Some nc"
    unfolding reduce_conv_def
    by (auto simp: for_loop_append bind_eq_Some_conv split: option.splits)
  from store_int_Some(1)[OF last] reduce_loop_length[OF pre] show ?thesis by simp
qed

text \<open>When it returns, the flag of every species is the conjunction of the local flags.\<close>

lemma reduce_conv_value:
  assumes run: "reduce_conv convs n nuConv = Some nc" and i: "1 \<le> i" "i \<le> n"
  shows "rd nc (int i) = allreduce_band convs i"
proof -
  let ?body = "\<lambda>i nc. do { b \<leftarrow> allreduce_band convs i; store_int nc i b }"
  have "[1..<n + 1] = [1..<i] @ [i..<n + 1]"
    using upt_add_eq_append[of 1 i "n + 1 - i"] i by simp
  moreover have "[i..<n + 1] = i # [i + 1..<n + 1]"
    using upt_conv_Cons[of i "n + 1"] i by simp
  ultimately have "[1..<n + 1] = [1..<i] @ [i] @ [i + 1..<n + 1]" by simp
  with run obtain x y b where
    at: "allreduce_band convs i = Some b" "store_int x i b = Some y"
    and post: "for_loop [i + 1..<n + 1] ?body y = Some nc"
    unfolding reduce_conv_def
    by (auto simp: for_loop_append bind_eq_Some_conv split: option.splits)
  have y: "rd y (int i) = Some b" using store_int_Some(3)[OF at(2), of "int i"] by simp
  have "rd nc (int i) = Some b"
  proof (rule for_loop_preserves[where P = "\<lambda>x. rd x (int i) = Some b", OF post y])
    fix k x' y'
    assume k: "k \<in> set [i + 1..<n + 1]" and st: "?body k x' = Some y'"
      and P: "rd x' (int i) = Some b"
    from st obtain b' where s: "store_int x' k b' = Some y'"
      by (auto simp: bind_eq_Some_conv)
    from k have "i < k" by (auto simp del: upt_Suc)
    then show "rd y' (int i) = Some b"
      using store_int_Some(3)[OF s, of "int i"] P by simp
  qed
  with at(1) show ?thesis by simp
qed


text \<open>A call of \<^verbatim>\<open>diffusion()\<close> on all processes returns only when every process with at
  least one species has at least \<open>nnus + 4\<close> elements in \<open>nuConv\<close>.\<close>

lemma those_Some_nth:
  assumes "those xs = Some ys"
  shows "length ys = length xs" and "\<And>k. k < length xs \<Longrightarrow> xs ! k = Some (ys ! k)"
proof -
  have "length ys = length xs \<and> (\<forall>k < length xs. xs ! k = Some (ys ! k))"
    using assms
  proof (induction xs arbitrary: ys)
    case Nil
    then show ?case by simp
  next
    case (Cons x xs)
    from Cons.prems obtain y ys' where x: "x = Some y" and r: "those xs = Some ys'"
      and ys: "ys = y # ys'"
      by (auto split: option.splits)
    from Cons.IH[OF r] x ys show ?case by (auto simp: nth_Cons split: nat.splits)
  qed
  then show "length ys = length xs" and "\<And>k. k < length xs \<Longrightarrow> xs ! k = Some (ys ! k)"
    by simp_all
qed

lemma diffusion_nuConv_length:
  assumes run: "diffusion ps iter dT = Some ps'" and p: "p \<in> set ps"
    and n: "1 \<le> nnus (p_cfg p)"
  shows "nnus (p_cfg p) + 3 < length (p_nuConv p)"
proof -
  from run obtain rs where
    rs: "those (map (\<lambda>p. diffusion_local (p_cfg p) (p_state p) (p_nuConv p) iter dT
                              (p_recvbuff p)) ps) = Some rs"
    and red: "those (map (\<lambda>(p, r). do {
                   nc \<leftarrow> reduce_conv (map snd rs) (nnus (p_cfg p)) (p_nuConv p);
                   Some (p\<lparr>p_state := fst r, p_nuConv := nc\<rparr>)
                 }) (zip ps rs)) = Some ps'"
    unfolding diffusion_def by (auto simp: bind_eq_Some_conv)
  have len: "length rs = length ps" using those_Some_nth(1)[OF rs] by simp
  from p obtain k where k: "k < length ps" "ps ! k = p" by (auto simp: in_set_conv_nth)
  have "(map (\<lambda>(p, r). do {
                   nc \<leftarrow> reduce_conv (map snd rs) (nnus (p_cfg p)) (p_nuConv p);
                   Some (p\<lparr>p_state := fst r, p_nuConv := nc\<rparr>)
                 }) (zip ps rs)) ! k = Some (ps' ! k)"
    by (rule those_Some_nth(2)[OF red]) (use k len in simp)
  then obtain nc where "reduce_conv (map snd rs) (nnus (p_cfg p)) (p_nuConv p) = Some nc"
    using k len by (auto simp: bind_eq_Some_conv)
  from reduce_conv_length[OF this n] show ?thesis .
qed

lemma ex_skip:
  "diffusion_local ex_cfg ex_state [True, True] 2 1 [] = Some (ex_state, [True, True])"
  by code_simp

text \<open>
  \<^bold>\<open>C10.\<close> On the small grid with one process and one species, \<open>nuConv\<close> has \<open>nnus + 1 = 2\<close>
  elements, as \<^verbatim>\<open>FixKinetics::init\<close> allocates it. Let the flag of the species be true at
  a call of \<^verbatim>\<open>diffusion()\<close>. The species is skipped, its local flag \<open>conv[1]\<close> is true, and the
  conjunction over the processes is true. The call then stores that conjunction, an
  \<^verbatim>\<open>int\<close>, at \<^verbatim>\<open>&nuConv[1]\<close>: this writes \<^verbatim>\<open>nuConv[2]\<close>, beyond the array, and the call has
  undefined behaviour.
\<close>

theorem diffusion_flag_store_overruns:
  "diffusion_local ex_cfg ex_state [True, True] 2 1 [] = Some (ex_state, [True, True])
   \<and> allreduce_band [[True, True]] 1 = Some True
   \<and> length [True, True] = nnus ex_cfg + 1
   \<and> store_int [True, True] 1 True = None
   \<and> diffusion [\<lparr>p_cfg = ex_cfg, p_state = ex_state, p_nuConv = [True, True],
                   p_recvbuff = []\<rparr>] 2 1 = None"
proof -
  have a: "allreduce_band [[True, True]] 1 = Some True"
    by (simp add: allreduce_band_def rd_def)
  have b: "length [True, True] = nnus ex_cfg + 1" by (simp add: ex_cfg_def)
  have c: "store_int [True, True] 1 True = None"
    by (simp add: store_int_def wr_def)
  have d: "reduce_conv [[True, True]] (nnus ex_cfg) [True, True] = None"
    using a c by (simp add: reduce_conv_def ex_cfg_def)
  have e: "diffusion [\<lparr>p_cfg = ex_cfg, p_state = ex_state, p_nuConv = [True, True],
                   p_recvbuff = []\<rparr>] 2 1 = None"
    using ex_skip d by (simp add: diffusion_def)
  from ex_skip a b c e show ?thesis by simp
qed

section \<open>The convergence check\<close>

text \<open>\<open>p_maxS\<close> after the loop over the cells: the maximum of its start value and the
  concentrations of all cells of the range, true and ghost.\<close>

lemma update_cell_max:
  assumes "update_cell c i g (s, m) = Some (s', m')"
  shows "\<exists>cur. rd2 (nuGrid s') (int g) (int i) = Some cur \<and> m' = max m cur"
proof -
  from assms obtain b where b: "rd (ghost s) (int g) = Some b"
    by (rule update_cell_ghost_flag)
  show ?thesis
  proof (cases b)
    case True
    with b have gh: "rd (ghost s) (int g) = Some True" by simp
    show ?thesis
    proof (rule update_cell_ghost[OF assms gh])
      fix G v
      assume "s' = s\<lparr>nuGrid := G\<rparr>"
        and "\<And>k l. rd2 G k l = (if k = int g \<and> l = int i then Some v else rd2 (nuGrid s) k l)"
        and "m' = (if m < v then v else m)"
      then show ?thesis by (auto simp: max_def)
    qed
  next
    case False
    with b have gh: "rd (ghost s) (int g) = Some False" by simp
    show ?thesis
    proof (rule update_cell_true[OF assms gh])
      fix G R S v
      assume "s' = s\<lparr>nuGrid := G, nuR := R, nuS := S\<rparr>"
        and "\<And>k l. rd2 G k l = (if k = int g \<and> l = int i
                then Some (if v > 0 then v else floor_conc) else rd2 (nuGrid s) k l)"
        and "m' = (if m < (if v > 0 then v else floor_conc)
                   then (if v > 0 then v else floor_conc) else m)"
      then show ?thesis by (auto simp: max_def)
    qed
  qed
qed

lemma cells_max:
  assumes "for_loop [0..<n] (update_cell c i) (s, m) = Some (s', m')"
  shows "m' = Max (insert m ((\<lambda>g. conc s' (int g) i) ` {..<n}))"
  using assms
proof (induction n arbitrary: s' m')
  case 0
  then show ?case by simp
next
  case (Suc n)
  from Suc.prems obtain s1 m1 where
    pre: "for_loop [0..<n] (update_cell c i) (s, m) = Some (s1, m1)"
    and last: "update_cell c i n (s1, m1) = Some (s', m')"
    by (auto simp: for_loop_append split: option.splits)
  from update_cell_max[OF last] obtain cur where
    cur: "rd2 (nuGrid s') (int n) (int i) = Some cur" and m': "m' = max m1 cur"
    by blast
  have same: "conc s' (int g) i = conc s1 (int g) i" if "g < n" for g
  proof -
    from cells_pos[OF pre, of g] that obtain v where
      v: "rd2 (nuGrid s1) (int g) (int i) = Some v" by auto
    have "int g \<noteq> int n" using that by simp
    from update_cell_frame(3)[OF last this, of "int i"] v
    have "rd2 (nuGrid s') (int g) (int i) = Some v" by simp
    with v show ?thesis
      unfolding conc_def using rd2_nth[of "nuGrid s'" g i v] rd2_nth[of "nuGrid s1" g i v]
      by simp
  qed
  have img: "(\<lambda>g. conc s' (int g) i) ` {..<n} = (\<lambda>g. conc s1 (int g) i) ` {..<n}"
    using same by auto
  have c: "conc s' (int n) i = cur" unfolding conc_def using rd2_nth[OF cur] by simp
  have "Max (insert m ((\<lambda>g. conc s' (int g) i) ` {..<Suc n}))
      = Max (insert cur (insert m ((\<lambda>g. conc s1 (int g) i) ` {..<n})))"
    by (simp add: lessThan_Suc img c insert_commute)
  also have "\<dots> = max cur (Max (insert m ((\<lambda>g. conc s1 (int g) i) ` {..<n})))"
    by (rule Max_insert) simp_all
  also have "\<dots> = max cur m1" using Suc.IH[OF pre] by simp
  finally show ?case using m' by (simp add: max.commute)
qed

text \<open>\<open>p_conv\<close> after the loop "check convergence criteria", with \<open>rflag = 0\<close> as the
  constructor sets it.\<close>

lemma check_cell_value:
  assumes "check_cell c s i maxS g b0 = Some b" and "rflag c = 0"
  shows "b = (b0 \<and> (true_cell s (int g) \<longrightarrow>
           \<bar>conc s (int g) i / (if maxS = 0 then 1 else maxS)
             - prev_conc s i (int g) / (if maxS = 0 then 1 else maxS)\<bar> < tol c))"
proof -
  from assms(1) obtain gh where gh: "rd (ghost s) (int g) = Some gh"
    unfolding check_cell_def by (auto simp: bind_eq_Some_conv)
  show ?thesis
  proof (cases gh)
    case True
    with gh assms(1) show ?thesis
      unfolding check_cell_def by (simp add: true_cell_def)
  next
    case False
    with gh assms obtain cur prv where
      cur: "rd2 (nuGrid s) (int g) (int i) = Some cur"
      and prv: "rd2 (nuPrev s) (int i) (int g) = Some prv"
      and b: "b = (b0 \<and> \<bar>cur / (if maxS = 0 then 1 else maxS)
                       - prv / (if maxS = 0 then 1 else maxS)\<bar> < tol c)"
      unfolding check_cell_def Let_def by (auto simp: bind_eq_Some_conv)
    have "conc s (int g) i = cur" unfolding conc_def using rd2_nth[OF cur] by simp
    moreover have "prev_conc s i (int g) = prv"
      unfolding prev_conc_def using rd2_nth[OF prv] by simp
    moreover have "true_cell s (int g)" using gh False by (simp add: true_cell_def)
    ultimately show ?thesis using b by simp
  qed
qed

lemma check_loop_value:
  assumes "for_loop [0..<n] (check_cell c s i maxS) b0 = Some b" and "rflag c = 0"
  shows "b = (b0 \<and> (\<forall>g<n. true_cell s (int g) \<longrightarrow>
           \<bar>conc s (int g) i / (if maxS = 0 then 1 else maxS)
             - prev_conc s i (int g) / (if maxS = 0 then 1 else maxS)\<bar> < tol c))"
  using assms(1)
proof (induction n arbitrary: b)
  case 0
  then show ?case by simp
next
  case (Suc n)
  from Suc.prems obtain b1 where
    pre: "for_loop [0..<n] (check_cell c s i maxS) b0 = Some b1"
    and last: "check_cell c s i maxS n b1 = Some b"
    by (auto simp: for_loop_append split: option.splits)
  from Suc.IH[OF pre] check_cell_value[OF last assms(2)] show ?case
    by (auto simp: less_Suc_eq)
qed

text \<open>The local flag of the pass over one species.\<close>

lemma species_pass_flag:
  assumes run: "species_pass c i s = Some (s2, pc)" and rflag: "rflag c = 0"
  shows "pc = (\<forall>g<nat (nXYZ s2). true_cell s2 (int g) \<longrightarrow>
           \<bar>conc s2 (int g) i
               / (if Max (insert 0 ((\<lambda>g. conc s2 (int g) i) ` {..<nat (nXYZ s2)})) = 0 then 1
                  else Max (insert 0 ((\<lambda>g. conc s2 (int g) i) ` {..<nat (nXYZ s2)})))
             - prev_conc s2 i (int g)
               / (if Max (insert 0 ((\<lambda>g. conc s2 (int g) i) ` {..<nat (nXYZ s2)})) = 0 then 1
                  else Max (insert 0 ((\<lambda>g. conc s2 (int g) i) ` {..<nat (nXYZ s2)})))\<bar>
           < tol c)"
proof (rule species_pass_parts[OF run])
  fix s1 pm
  assume cells: "for_loop [0..<nat (nXYZ s1)] (update_cell c i) (s1, 0) = Some (s2, pm)"
    and check: "for_loop [0..<nat (nXYZ s2)] (check_cell c s2 i (if 0 > pm then 0 else pm)) True
                  = Some pc"
  have n: "nXYZ s2 = nXYZ s1"
    using cells_frame(1)[OF cells] by (simp add: differ_in_species_def)
  have pm: "pm = Max (insert 0 ((\<lambda>g. conc s2 (int g) i) ` {..<nat (nXYZ s2)}))"
    using cells_max[OF cells] n by simp
  have "0 \<le> pm" unfolding pm by (rule Max_ge) simp_all
  then have "(if 0 > pm then 0 else pm) = pm" by simp
  with check_loop_value[OF check rflag] show ?thesis unfolding pm by simp
qed

section \<open>The local convergence flag after one diffusion step\<close>

lemma species_loop_pass_flag:
  assumes run: "for_loop [1..<n + 1] (diffusion_species c nuConv) (s, cv) = Some (s', cv')"
    and i: "1 \<le> i" "i \<le> n"
    and liquid: "rd (nuType c) (int i) = Some 0"
    and unconv: "rd nuConv (int i) = Some False"
    and init: "rd cv (int i) = Some True"
  obtains x y pc where "same_for_species i s x" "species_pass c i x = Some (y, pc)"
    "same_for_species i y s'" "rd cv' (int i) = Some pc"
proof -
  let ?P = "\<lambda>(x :: grid_state) (xc :: bool list).
      same_for_species i s x \<and> rd xc (int i) = Some True"
  let ?Q = "\<lambda>(z :: grid_state) (zc :: bool list).
      \<exists>x y pc. same_for_species i s x \<and> species_pass c i x = Some (y, pc)
         \<and> same_for_species i y z \<and> rd zc (int i) = Some pc"
  have "?Q s' cv'"
  proof (rule species_loop_at[where P = ?P and Q = ?Q, OF run i])
    show "?P s cv" using init by (simp add: same_for_species_refl)
  next
    fix j x xc y yc
    assume j: "j \<noteq> i" and d: "differ_in_species j x y"
      and k: "\<And>k. k \<noteq> int j \<Longrightarrow> rd yc k = rd xc k" and P: "?P x xc"
    have "rd yc (int i) = rd xc (int i)" using k[of "int i"] j by simp
    moreover have "same_for_species i s y"
      using P differ_same[OF d j] same_for_species_trans by blast
    ultimately show "?P y yc" using P by simp
  next
    fix x xc y yc
    assume st: "diffusion_species c nuConv i (x, xc) = Some (y, yc)" and P: "?P x xc"
    from st show "?Q y yc"
    proof (cases rule: diffusion_species_cases)
      case (skipped ty)
      then show ?thesis using liquid unconv by simp
    next
      case (active pc b)
      from active(4) P have "b = True" by simp
      with rd_wr[OF active(5), of "int i"] have "rd yc (int i) = Some pc" by simp
      with active(3) P same_for_species_refl[of i y] show ?thesis by blast
    qed
  next
    fix j x xc y yc
    assume j: "j \<noteq> i" and d: "differ_in_species j x y"
      and k: "\<And>k. k \<noteq> int j \<Longrightarrow> rd yc k = rd xc k" and Q: "?Q x xc"
    from Q obtain x0 y0 pc where
      q: "same_for_species i s x0" "species_pass c i x0 = Some (y0, pc)"
        "same_for_species i y0 x" "rd xc (int i) = Some pc"
      by blast
    have "rd yc (int i) = Some pc" using k[of "int i"] j q(4) by simp
    moreover have "same_for_species i y0 y"
      using q(3) differ_same[OF d j] same_for_species_trans by blast
    ultimately show "?Q y yc" using q(1,2) by blast
  qed
  then show ?thesis using that by blast
qed

lemma allreduce_band_value:
  assumes "\<And>cv. cv \<in> set convs \<Longrightarrow> i < length cv"
  shows "allreduce_band convs i = Some (\<forall>cv \<in> set convs. cv ! i)"
proof -
  have "those (map (\<lambda>cv. rd cv (int i)) convs) = Some (map (\<lambda>cv. cv ! i) convs)"
    by (rule those_map_Some) (use assms in \<open>simp add: rd_def\<close>)
  then show ?thesis by (simp add: allreduce_band_def list_all_iff)
qed

text \<open>
  \<^bold>\<open>C2\<close> (as amended). Let one diffusion step return, let species \<open>i\<close> be liquid and not yet
  converged, and let \<open>G\<close> be the field at the start of the step (\<open>nuGrid\<close> of the call after
  the halo exchange). The local flag \<open>conv[i]\<close> of the process is true iff every true cell
  \<open>g\<close> has \<open>|c_new / dv - c_prev / dv| < tol\<close>, where \<open>c_new\<close> is the stored concentration after
  the step, \<open>c_prev = G[g][i]\<close>, and \<open>dv\<close> is \<open>maxS\<close>, or 1 when \<open>maxS = 0\<close>; \<open>maxS\<close> is the maximum
  of 0 and the concentrations of the species after the step over all local cells, ghost
  cells included. The value that the reduction with \<^verbatim>\<open>MPI_BAND\<close> computes for the species is
  the conjunction of the local flags of all processes.
\<close>

theorem diffusion_convergence_flag:
  assumes run: "diffusion_local c s nuConv iter dT recvbuff = Some (s', conv)"
    and i: "1 \<le> i" "i \<le> nnus c"
    and liquid: "rd (nuType c) (int i) = Some 0"
    and unconv: "rd nuConv (int i) = Some False"
    and rflag: "rflag c = 0"
  shows "\<exists>G maxS dv.
           halo_unpack c (recv_buff_size (grow_buffers c s)) recvbuff (nuGrid s) = Some G
           \<and> maxS = Max (insert 0 ((\<lambda>g. conc s' (int g) i) ` {..<nat (nXYZ s')}))
           \<and> dv = (if maxS = 0 then 1 else maxS)
           \<and> rd conv (int i)
               = Some (\<forall>g<nat (nXYZ s'). true_cell s' (int g) \<longrightarrow>
                         \<bar>conc s' (int g) i / dv - cell_of G (int g) i / dv\<bar> < tol c)
           \<and> (\<forall>convs. (\<forall>cv \<in> set convs. i < length cv) \<longrightarrow>
                 allreduce_band convs i = Some (\<forall>cv \<in> set convs. cv ! i))"
proof -
  have n1: "1 \<le> nnus c" using i by simp
  show ?thesis
  proof (rule diffusion_local_head[OF run n1])
    fix G s3
    assume G: "halo_unpack c (recv_buff_size (grow_buffers c s)) recvbuff (nuGrid s) = Some G"
      and loop: "for_loop [1..<nnus c + 1] (diffusion_species c nuConv)
        (s3, replicate (nnus c + 1) True) = Some (s', conv)"
      and s3: "nuGrid s3 = G"
    have init: "rd (replicate (nnus c + 1) True) (int i) = Some True"
      using i by (simp add: rd_def)
    show ?thesis
    proof (rule species_loop_pass_flag[OF loop i liquid unconv init])
      fix x y pc
      assume sx: "same_for_species i s3 x" and pass: "species_pass c i x = Some (y, pc)"
        and sy: "same_for_species i y s'" and flag: "rd conv (int i) = Some pc"
      from sy have n: "nXYZ s' = nXYZ y" and gh: "ghost s' = ghost y"
        and grid: "\<And>k. rd2 (nuGrid s') k (int i) = rd2 (nuGrid y) k (int i)"
        by (simp_all add: same_for_species_def)
      from sx have xg: "\<And>k. rd2 (nuGrid x) k (int i) = rd2 G k (int i)"
        using s3 by (simp add: same_for_species_def)
      have cy: "conc s' (int g) i = conc y (int g) i" if "g < nat (nXYZ y)" for g
      proof -
        from species_pass_pos[OF pass that] obtain v where
          v: "rd2 (nuGrid y) (int g) (int i) = Some v" by blast
        then have "rd2 (nuGrid s') (int g) (int i) = Some v" using grid by simp
        with v show ?thesis
          unfolding conc_def using rd2_nth[of "nuGrid s'" g i v] rd2_nth[of "nuGrid y" g i v]
          by simp
      qed
      have py: "cell_of G (int g) i = prev_conc y i (int g)" if "g < nat (nXYZ y)" for g
      proof -
        from species_pass_snapshot[OF pass that] obtain v where
          v: "rd2 (nuGrid x) (int g) (int i) = Some v"
            "rd2 (nuPrev y) (int i) (int g) = Some v"
          by blast
        have "cell_of G (int g) i = v" using v(1) xg rd2_cell_of by simp
        moreover have "prev_conc y i (int g) = v"
          unfolding prev_conc_def using rd2_nth[OF v(2)] by simp
        ultimately show ?thesis by simp
      qed
      have ty: "true_cell s' k = true_cell y k" for k by (simp add: true_cell_def gh)
      define M where "M = Max (insert 0 ((\<lambda>g. conc y (int g) i) ` {..<nat (nXYZ y)}))"
      define dv where "dv = (if M = 0 then 1 else M)"
      have img: "(\<lambda>g. conc s' (int g) i) ` {..<nat (nXYZ s')}
               = (\<lambda>g. conc y (int g) i) ` {..<nat (nXYZ y)}"
        unfolding n by (rule image_cong) (simp_all add: cy)
      have M: "M = Max (insert 0 ((\<lambda>g. conc s' (int g) i) ` {..<nat (nXYZ s')}))"
        unfolding M_def img by (rule refl)
      have pc: "pc = (\<forall>g<nat (nXYZ y). true_cell y (int g) \<longrightarrow>
           \<bar>conc y (int g) i / dv - prev_conc y i (int g) / dv\<bar> < tol c)"
        using species_pass_flag[OF pass rflag] unfolding dv_def M_def by simp
      have "pc = (\<forall>g<nat (nXYZ s'). true_cell s' (int g) \<longrightarrow>
           \<bar>conc s' (int g) i / dv - cell_of G (int g) i / dv\<bar> < tol c)"
        unfolding pc n using cy py ty by auto
      with flag have f: "rd conv (int i)
               = Some (\<forall>g<nat (nXYZ s'). true_cell s' (int g) \<longrightarrow>
                         \<bar>conc s' (int g) i / dv - cell_of G (int g) i / dv\<bar> < tol c)"
        by simp
      have r: "\<forall>convs. (\<forall>cv \<in> set convs. i < length cv) \<longrightarrow>
                 allreduce_band convs i = Some (\<forall>cv \<in> set convs. cv ! i)"
        using allreduce_band_value by blast
      from G M dv_def f r show ?thesis by blast
    qed
  qed
qed

end
